theory Spec2Isabelle
  imports Main
begin

section \<open>Data model of the collector (examples/gcl.c)\<close>

text \<open>
  Pointers are natural numbers; \<open>0\<close> is the null pointer.  The memory that holds the
  objects is a partial map from addresses to blocks: an address outside its domain is
  unallocated (or freed), and an access through it is undefined behaviour in C, which the
  model reports as the error value \<open>Undefined_behaviour\<close>.
\<close>

type_synonym addr = nat

text \<open>
  How a call can fail to return normally: \<open>error(msg)\<close> prints the message and aborts
  (\<open>Fatal msg\<close>), \<open>abort()\<close> alone (\<open>Aborted\<close>), \<open>assert(false)\<close>
  (\<open>Assert_failed\<close>), and an access that C leaves undefined.
\<close>

datatype error = Fatal string | Aborted | Assert_failed | Undefined_behaviour

text \<open>The four statically allocated class descriptors, named by their address.\<close>

datatype class_ref = nil_class | cons_class | atom_class | function_class

type_synonym apply_func = nat

text \<open>
  The fields that follow the header in \<open>struct cons\<close>, \<open>struct atom\<close> and
  \<open>struct function\<close>; \<open>nil_value\<close> is a bare \<open>struct object\<close>.  The characters of an
  atom's string buffer stand for the buffer itself.
\<close>

datatype payload =
    No_payload
  | Cons_payload (tail_is_next: bool) (head: addr) (tail: addr)
  | Atom_payload (chars: string)
  | Function_payload (apply_fn: apply_func) (data: addr)

text \<open>\<open>struct object\<close>: the header (\<open>next\<close>, \<open>marked\<close>, \<open>class\<close>) and the payload behind it.\<close>

record object =
  next_ptr :: addr
  marked :: bool
  class_ptr :: class_ref
  payload :: payload

type_synonym store = "addr \<rightharpoonup> object"

section \<open>The class callbacks\<close>

text \<open>
  A marking callback receives \<open>&object\<close> and \<open>&parent\<close>; the model passes the two values
  and returns the result flag with the new values of both variables and the new memory.
\<close>

type_synonym marking_result = "error + (bool \<times> addr \<times> addr \<times> store)"

definition nil_start_marking :: "addr \<Rightarrow> addr \<Rightarrow> store \<Rightarrow> marking_result" where
  "nil_start_marking obj parent h = Inr (False, obj, parent, h)"

definition nil_mark_next :: "addr \<Rightarrow> addr \<Rightarrow> store \<Rightarrow> marking_result" where
  "nil_mark_next obj parent h = Inl Assert_failed"

definition nil_dispose :: "addr \<Rightarrow> store \<Rightarrow> error + store" where
  "nil_dispose obj h = Inl Aborted"

definition cons_start_marking :: "addr \<Rightarrow> addr \<Rightarrow> store \<Rightarrow> marking_result" where
  "cons_start_marking obj parent h =
     (case h obj of
        None \<Rightarrow> Inl Undefined_behaviour
      | Some ob \<Rightarrow>
          (case payload ob of
             Cons_payload tin hp tp \<Rightarrow>
               Inr (True, hp, obj, h(obj \<mapsto> ob\<lparr>payload := Cons_payload True parent tp\<rparr>))
           | _ \<Rightarrow> Inl Undefined_behaviour))"

definition cons_mark_next :: "addr \<Rightarrow> addr \<Rightarrow> store \<Rightarrow> marking_result" where
  "cons_mark_next obj parent h =
     (case h parent of
        None \<Rightarrow> Inl Undefined_behaviour
      | Some ob \<Rightarrow>
          (case payload ob of
             Cons_payload tin hp tp \<Rightarrow>
               if tin then
                 (let grandparent = hp
                  in Inr (True, tp, parent,
                          h(parent \<mapsto> ob\<lparr>payload := Cons_payload False obj grandparent\<rparr>)))
               else
                 Inr (False, parent, tp,
                      h(parent \<mapsto> ob\<lparr>payload := Cons_payload tin hp obj\<rparr>))
           | _ \<Rightarrow> Inl Undefined_behaviour))"

definition cons_dispose :: "addr \<Rightarrow> store \<Rightarrow> error + store" where
  "cons_dispose obj h =
     (case h obj of None \<Rightarrow> Inl Undefined_behaviour | Some ob \<Rightarrow> Inr (h(obj := None)))"

definition atom_start_marking :: "addr \<Rightarrow> addr \<Rightarrow> store \<Rightarrow> marking_result" where
  "atom_start_marking obj parent h = Inr (False, obj, parent, h)"

definition atom_mark_next :: "addr \<Rightarrow> addr \<Rightarrow> store \<Rightarrow> marking_result" where
  "atom_mark_next obj parent h = Inl Assert_failed"

definition atom_dispose :: "addr \<Rightarrow> store \<Rightarrow> error + store" where
  "atom_dispose obj h =
     (case h obj of
        None \<Rightarrow> Inl Undefined_behaviour
      | Some ob \<Rightarrow>
          (case payload ob of
             Atom_payload cs \<Rightarrow> Inr (h(obj := None))
           | _ \<Rightarrow> Inl Undefined_behaviour))"

definition function_start_marking :: "addr \<Rightarrow> addr \<Rightarrow> store \<Rightarrow> marking_result" where
  "function_start_marking obj parent h =
     (case h obj of
        None \<Rightarrow> Inl Undefined_behaviour
      | Some ob \<Rightarrow>
          (case payload ob of
             Function_payload ap d \<Rightarrow>
               Inr (True, d, obj, h(obj \<mapsto> ob\<lparr>payload := Function_payload ap parent\<rparr>))
           | _ \<Rightarrow> Inl Undefined_behaviour))"

definition function_mark_next :: "addr \<Rightarrow> addr \<Rightarrow> store \<Rightarrow> marking_result" where
  "function_mark_next obj parent h =
     (case h parent of
        None \<Rightarrow> Inl Undefined_behaviour
      | Some ob \<Rightarrow>
          (case payload ob of
             Function_payload ap d \<Rightarrow>
               Inr (False, parent, d, h(parent \<mapsto> ob\<lparr>payload := Function_payload ap obj\<rparr>))
           | _ \<Rightarrow> Inl Undefined_behaviour))"

definition function_dispose :: "addr \<Rightarrow> store \<Rightarrow> error + store" where
  "function_dispose obj h =
     (case h obj of None \<Rightarrow> Inl Undefined_behaviour | Some ob \<Rightarrow> Inr (h(obj := None)))"

text \<open>The three function pointers of a \<open>struct class\<close>, read through the descriptor.\<close>

fun start_marking_of :: "class_ref \<Rightarrow> addr \<Rightarrow> addr \<Rightarrow> store \<Rightarrow> marking_result" where
  "start_marking_of nil_class = nil_start_marking"
| "start_marking_of cons_class = cons_start_marking"
| "start_marking_of atom_class = atom_start_marking"
| "start_marking_of function_class = function_start_marking"

fun mark_next_of :: "class_ref \<Rightarrow> addr \<Rightarrow> addr \<Rightarrow> store \<Rightarrow> marking_result" where
  "mark_next_of nil_class = nil_mark_next"
| "mark_next_of cons_class = cons_mark_next"
| "mark_next_of atom_class = atom_mark_next"
| "mark_next_of function_class = function_mark_next"

fun dispose_of :: "class_ref \<Rightarrow> addr \<Rightarrow> store \<Rightarrow> error + store" where
  "dispose_of nil_class = nil_dispose"
| "dispose_of cons_class = cons_dispose"
| "dispose_of atom_class = atom_dispose"
| "dispose_of function_class = function_dispose"

section \<open>The Schorr-Waite marker\<close>

text \<open>
  \<open>mark\<close> is two labels joined by \<open>goto\<close>.  The model is one loop over the label, the two
  local variables and the memory.  \<open>None\<close> is a run that never returns, \<open>Some (Inl e)\<close> a
  run that stops with an error, \<open>Some (Inr h)\<close> a normal return with memory \<open>h\<close>.
\<close>

datatype label = L_start_marking | L_mark_next

partial_function (option) mark_loop ::
  "label \<Rightarrow> addr \<Rightarrow> addr \<Rightarrow> store \<Rightarrow> (error + store) option" where
  "mark_loop pc obj parent h =
     (case pc of
        L_start_marking \<Rightarrow>
          (case h obj of
             None \<Rightarrow> Some (Inl Undefined_behaviour)
           | Some ob \<Rightarrow>
               if marked ob then mark_loop L_mark_next obj parent h
               else
                 (case start_marking_of (class_ptr ob) obj parent
                         (h(obj \<mapsto> ob\<lparr>marked := True\<rparr>)) of
                    Inl e \<Rightarrow> Some (Inl e)
                  | Inr (again, obj', parent', h') \<Rightarrow>
                      if again then mark_loop L_start_marking obj' parent' h'
                      else mark_loop L_mark_next obj' parent' h'))
      | L_mark_next \<Rightarrow>
          if parent = 0 then Some (Inr h)
          else
            (case h parent of
               None \<Rightarrow> Some (Inl Undefined_behaviour)
             | Some pob \<Rightarrow>
                 (case mark_next_of (class_ptr pob) obj parent h of
                    Inl e \<Rightarrow> Some (Inl e)
                  | Inr (again, obj', parent', h') \<Rightarrow>
                      if again then mark_loop L_start_marking obj' parent' h'
                      else mark_loop L_mark_next obj' parent' h')))"

definition mark :: "addr \<Rightarrow> store \<Rightarrow> (error + store) option" where
  "mark obj h = mark_loop L_start_marking obj 0 h"

section \<open>Global state\<close>

text \<open>
  A root is the address of a cell that holds an object pointer.  The cells are C variables:
  the three globals, the parameters of \<open>create_cons\<close> and \<open>create_function\<close> whose
  addresses these functions push, and the variables of the mutator.  None of them lies
  inside an object, so the cells are a store of their own.
\<close>

datatype cell =
    nil_root | operand_stack | cont_stack
  | create_cons_head | create_cons_tail | create_function_data
  | mutator_cell nat

text \<open>
  The globals \<open>heap_head\<close>, \<open>roots_head\<close> and \<open>object_count\<close>, the memory and the cells.
  The root stack (\<open>struct stack\<close>, reached only through \<open>stack_push\<close>, \<open>stack_pop\<close> and
  the walk in \<open>gc\<close>) is the list of its elements, top_of first.  \<open>object_count\<close> is a C
  \<open>int\<close>: the model computes in \<open>int\<close> and reports the overflow that C leaves undefined.
\<close>

record state =
  memory :: store
  heap_head :: addr
  roots_head :: "cell list"
  object_count :: int
  cells :: "cell \<Rightarrow> addr"

definition INT_MAX :: int where
  "INT_MAX = 2147483647"

definition INT_MIN :: int where
  "INT_MIN = - 2147483648"

section \<open>The root stack\<close>

definition stack_push :: "'a list \<Rightarrow> 'a \<Rightarrow> 'a list" where
  "stack_push stack v = v # stack"

definition stack_pop :: "'a list \<Rightarrow> error + ('a \<times> 'a list)" where
  "stack_pop stack =
     (case stack of
        [] \<Rightarrow> Inl (Fatal ''stack_pop: stack underflow'')
      | v # rest \<Rightarrow> Inr (v, rest))"

definition push_root :: "cell \<Rightarrow> state \<Rightarrow> state" where
  "push_root root s = s\<lparr>roots_head := stack_push (roots_head s) root\<rparr>"

definition set_root :: "cell \<Rightarrow> addr \<Rightarrow> state \<Rightarrow> state" where
  "set_root root v s = s\<lparr>cells := (cells s)(root := v)\<rparr>"

definition pop_root :: "state \<Rightarrow> error + state" where
  "pop_root s =
     (case stack_pop (roots_head s) of
        Inl e \<Rightarrow> Inl e
      | Inr (v, rest) \<Rightarrow> Inr (s\<lparr>roots_head := rest\<rparr>))"

section \<open>The collector driver\<close>

text \<open>The first loop of \<open>gc\<close>: \<open>mark\<close> on the content of every cell of the root stack.\<close>

fun mark_roots :: "cell list \<Rightarrow> (cell \<Rightarrow> addr) \<Rightarrow> store \<Rightarrow> (error + store) option" where
  "mark_roots [] cs h = Some (Inr h)"
| "mark_roots (r # rs) cs h =
     (case mark (cs r) h of
        None \<Rightarrow> None
      | Some (Inl e) \<Rightarrow> Some (Inl e)
      | Some (Inr h') \<Rightarrow> mark_roots rs cs h')"

text \<open>
  The sweep walks the heap list with \<open>struct object **h\<close>, which points either to
  \<open>heap_head\<close> or to the \<open>next\<close> field of the last object kept.
\<close>

datatype link = Heap_head_ptr | Next_field addr

definition read_link :: "link \<Rightarrow> state \<Rightarrow> addr option" where
  "read_link l s =
     (case l of
        Heap_head_ptr \<Rightarrow> Some (heap_head s)
      | Next_field p \<Rightarrow> (case memory s p of None \<Rightarrow> None | Some ob \<Rightarrow> Some (next_ptr ob)))"

definition write_link :: "link \<Rightarrow> addr \<Rightarrow> state \<Rightarrow> state option" where
  "write_link l v s =
     (case l of
        Heap_head_ptr \<Rightarrow> Some (s\<lparr>heap_head := v\<rparr>)
      | Next_field p \<Rightarrow>
          (case memory s p of
             None \<Rightarrow> None
           | Some ob \<Rightarrow> Some (s\<lparr>memory := (memory s)(p \<mapsto> ob\<lparr>next_ptr := v\<rparr>)\<rparr>)))"

partial_function (option) sweep :: "link \<Rightarrow> state \<Rightarrow> (error + state) option" where
  "sweep l s =
     (case read_link l s of
        None \<Rightarrow> Some (Inl Undefined_behaviour)
      | Some obj \<Rightarrow>
          if obj = 0 then Some (Inr s)
          else
            (case memory s obj of
               None \<Rightarrow> Some (Inl Undefined_behaviour)
             | Some ob \<Rightarrow>
                 if marked ob then
                   sweep (Next_field obj) (s\<lparr>memory := (memory s)(obj \<mapsto> ob\<lparr>marked := False\<rparr>)\<rparr>)
                 else if object_count s = INT_MIN then Some (Inl Undefined_behaviour)
                 else
                   (case write_link l (next_ptr ob) (s\<lparr>object_count := object_count s - 1\<rparr>) of
                      None \<Rightarrow> Some (Inl Undefined_behaviour)
                    | Some s1 \<Rightarrow>
                        (case dispose_of (class_ptr ob) obj (memory s1) of
                           Inl e \<Rightarrow> Some (Inl e)
                         | Inr h' \<Rightarrow> sweep l (s1\<lparr>memory := h'\<rparr>)))))"

definition gc :: "state \<Rightarrow> (error + state) option" where
  "gc s =
     (case mark_roots (roots_head s) (cells s) (memory s) of
        None \<Rightarrow> None
      | Some (Inl e) \<Rightarrow> Some (Inl e)
      | Some (Inr h) \<Rightarrow> sweep Heap_head_ptr (s\<lparr>memory := h\<rparr>))"

section \<open>The allocator\<close>

definition register_object :: "addr \<Rightarrow> class_ref \<Rightarrow> state \<Rightarrow> (error + state) option" where
  "register_object obj cl s =
     (case (if object_count s = 10000 then gc s else Some (Inr s)) of
        None \<Rightarrow> None
      | Some (Inl e) \<Rightarrow> Some (Inl e)
      | Some (Inr s1) \<Rightarrow>
          if object_count s1 = 10000 then
            Some (Inl (Fatal ''register_object: object count limit reached.''))
          else if object_count s1 = INT_MAX then Some (Inl Undefined_behaviour)
          else
            (case memory s1 obj of
               None \<Rightarrow> Some (Inl Undefined_behaviour)
             | Some ob \<Rightarrow>
                 Some (Inr (s1\<lparr>object_count := object_count s1 + 1,
                               memory := (memory s1)
                                 (obj \<mapsto> ob\<lparr>next_ptr := heap_head s1, marked := False,
                                            class_ptr := cl\<rparr>),
                               heap_head := obj\<rparr>))))"

section \<open>Program start and the built-in values\<close>

text \<open>
  \<open>nil_value\<close> is a statically allocated object; its address is some fixed non-null
  address.  At program start the static initialisers have run: the heap list and the root
  stack are empty, the count is zero, and the three global cells point to \<open>nil_value\<close>.
\<close>

definition nil_value :: addr where
  "nil_value = 1"

definition initial_state :: state where
  "initial_state =
     \<lparr>memory = [nil_value \<mapsto>
                  \<lparr>next_ptr = 0, marked = False, class_ptr = nil_class, payload = No_payload\<rparr>],
      heap_head = 0,
      roots_head = [],
      object_count = 0,
      cells = (\<lambda>c. 0)(nil_root := nil_value, operand_stack := nil_value,
                          cont_stack := nil_value)\<rparr>"

definition init_globals :: "state \<Rightarrow> (error + state) option" where
  "init_globals s =
     (case register_object nil_value nil_class s of
        None \<Rightarrow> None
      | Some (Inl e) \<Rightarrow> Some (Inl e)
      | Some (Inr s1) \<Rightarrow>
          Some (Inr (push_root cont_stack (push_root operand_stack (push_root nil_root s1)))))"

definition create_nil :: "state \<Rightarrow> addr \<times> state" where
  "create_nil s = (nil_value, s)"

section \<open>The variant constructors\<close>

text \<open>
  \<open>malloc\<close> chooses the address of the new block; the model takes that address as the
  argument \<open>new\<close> (\<open>0\<close> when \<open>malloc\<close> fails).  The fields of a new block that the
  constructor does not write are indeterminate in C; the code writes each of them before it
  reads it, and the model fills them with fixed values.
\<close>

definition fresh_block :: "payload \<Rightarrow> object" where
  "fresh_block p = \<lparr>next_ptr = 0, marked = False, class_ptr = nil_class, payload = p\<rparr>"

definition create_cons :: "addr \<Rightarrow> addr \<Rightarrow> addr \<Rightarrow> state \<Rightarrow> (error + (addr \<times> state)) option" where
  "create_cons new head_arg tail_arg s =
     (if new = 0 then Some (Inl (Fatal ''create_cons: out of memory''))
      else
        (let s1 = s\<lparr>memory := (memory s)(new \<mapsto> fresh_block (Cons_payload False head_arg tail_arg)),
                     cells := (cells s)(create_cons_head := head_arg,
                                        create_cons_tail := tail_arg)\<rparr>;
             s2 = push_root create_cons_head s1;
             s3 = push_root create_cons_tail s2
         in case register_object new cons_class s3 of
              None \<Rightarrow> None
            | Some (Inl e) \<Rightarrow> Some (Inl e)
            | Some (Inr s4) \<Rightarrow>
                (case pop_root s4 of
                   Inl e \<Rightarrow> Some (Inl e)
                 | Inr s5 \<Rightarrow>
                     (case pop_root s5 of
                        Inl e \<Rightarrow> Some (Inl e)
                      | Inr s6 \<Rightarrow> Some (Inr (new, s6))))))"

definition create_atom :: "addr \<Rightarrow> string \<Rightarrow> state \<Rightarrow> (error + (addr \<times> state)) option" where
  "create_atom new buffer s =
     (if new = 0 then Some (Inl Aborted)
      else
        (let s1 = s\<lparr>memory := (memory s)(new \<mapsto> fresh_block (Atom_payload buffer))\<rparr>
         in case register_object new atom_class s1 of
              None \<Rightarrow> None
            | Some (Inl e) \<Rightarrow> Some (Inl e)
            | Some (Inr s2) \<Rightarrow> Some (Inr (new, s2))))"

definition create_function ::
  "addr \<Rightarrow> apply_func \<Rightarrow> addr \<Rightarrow> state \<Rightarrow> (error + (addr \<times> state)) option" where
  "create_function new ap data_arg s =
     (if new = 0 then Some (Inl Aborted)
      else
        (let s1 = s\<lparr>memory := (memory s)(new \<mapsto> fresh_block (Function_payload ap data_arg)),
                     cells := (cells s)(create_function_data := data_arg)\<rparr>;
             s2 = push_root create_function_data s1
         in case register_object new function_class s2 of
              None \<Rightarrow> None
            | Some (Inl e) \<Rightarrow> Some (Inl e)
            | Some (Inr s3) \<Rightarrow>
                (case pop_root s3 of
                   Inl e \<Rightarrow> Some (Inl e)
                 | Inr s4 \<Rightarrow> Some (Inr (new, s4)))))"

section \<open>Accessors and the two interpreter stacks\<close>

definition destruct_cons :: "addr \<Rightarrow> state \<Rightarrow> error + (addr \<times> addr)" where
  "destruct_cons obj s =
     (case memory s obj of
        None \<Rightarrow> Inl Undefined_behaviour
      | Some ob \<Rightarrow>
          if class_ptr ob \<noteq> cons_class then Inl (Fatal ''cons expected'')
          else
            (case payload ob of
               Cons_payload tin hp tp \<Rightarrow> Inr (hp, tp)
             | _ \<Rightarrow> Inl Undefined_behaviour))"

text \<open>
  Modelled from the spec: \<open>string_buffer_equals\<close> (stringBuffers.c is not part of the
  sources) is the "equality on atoms" of the interface, here the equality of the characters
  of the two buffers.
\<close>

definition string_buffer_equals :: "string \<Rightarrow> string \<Rightarrow> bool" where
  "string_buffer_equals b1 b2 = (b1 = b2)"

definition atom_equals :: "addr \<Rightarrow> addr \<Rightarrow> state \<Rightarrow> error + bool" where
  "atom_equals object1 object2 s =
     (if object1 = object2 then Inr True
      else
        (case memory s object1 of
           None \<Rightarrow> Inl Undefined_behaviour
         | Some ob1 \<Rightarrow>
             if class_ptr ob1 \<noteq> atom_class then Inl (Fatal ''atom_equals: atoms expected'')
             else
               (case memory s object2 of
                  None \<Rightarrow> Inl Undefined_behaviour
                | Some ob2 \<Rightarrow>
                    if class_ptr ob2 \<noteq> atom_class
                    then Inl (Fatal ''atom_equals: atoms expected'')
                    else
                      (case (payload ob1, payload ob2) of
                         (Atom_payload c1, Atom_payload c2) \<Rightarrow> Inr (string_buffer_equals c1 c2)
                       | _ \<Rightarrow> Inl Undefined_behaviour))))"

partial_function (option) assoc :: "addr \<Rightarrow> addr \<Rightarrow> state \<Rightarrow> (error + addr) option" where
  "assoc key map_arg s =
     (if map_arg = nil_value then Some (Inr 0)
      else
        (case destruct_cons map_arg s of
           Inl e \<Rightarrow> Some (Inl e)
         | Inr (mapHead, mapTail) \<Rightarrow>
             (case destruct_cons mapHead s of
                Inl e \<Rightarrow> Some (Inl e)
              | Inr (entryHead, entryTail) \<Rightarrow>
                  (case atom_equals key entryHead s of
                     Inl e \<Rightarrow> Some (Inl e)
                   | Inr eq \<Rightarrow> if eq then Some (Inr entryTail) else assoc key mapTail s))))"

definition push :: "addr \<Rightarrow> addr \<Rightarrow> state \<Rightarrow> (error + state) option" where
  "push new obj s =
     (let old_operand_stack = cells s operand_stack
      in case create_cons new obj old_operand_stack s of
           None \<Rightarrow> None
         | Some (Inl e) \<Rightarrow> Some (Inl e)
         | Some (Inr (cons, s1)) \<Rightarrow> Some (Inr (set_root operand_stack cons s1)))"

definition pop :: "state \<Rightarrow> error + (addr \<times> state)" where
  "pop s =
     (let old_operand_stack = cells s operand_stack
      in case memory s old_operand_stack of
           None \<Rightarrow> Inl Undefined_behaviour
         | Some ob \<Rightarrow>
             if class_ptr ob \<noteq> cons_class then Inl (Fatal ''pop: stack underflow'')
             else
               (case payload ob of
                  Cons_payload tin hp tp \<Rightarrow>
                    (let result = hp; new_operand_stack = tp
                     in Inr (result, set_root operand_stack new_operand_stack s))
                | _ \<Rightarrow> Inl Undefined_behaviour))"

definition push_cont :: "addr \<Rightarrow> addr \<Rightarrow> state \<Rightarrow> (error + state) option" where
  "push_cont new obj s =
     (let old_cont_stack = cells s cont_stack
      in case create_cons new obj old_cont_stack s of
           None \<Rightarrow> None
         | Some (Inl e) \<Rightarrow> Some (Inl e)
         | Some (Inr (cons, s1)) \<Rightarrow> Some (Inr (set_root cont_stack cons s1)))"

definition pop_cont :: "state \<Rightarrow> error + (addr \<times> state)" where
  "pop_cont s =
     (let old_cont_stack = cells s cont_stack
      in case memory s old_cont_stack of
           None \<Rightarrow> Inl Undefined_behaviour
         | Some ob \<Rightarrow>
             if class_ptr ob \<noteq> cons_class then Inr (0, s)
             else
               (case payload ob of
                  Cons_payload tin hp tp \<Rightarrow>
                    (let result = hp; new_cont_stack = tp
                     in Inr (result, set_root cont_stack new_cont_stack s))
                | _ \<Rightarrow> Inl Undefined_behaviour))"

section \<open>The object graph\<close>

text \<open>
  The children a class exposes are what its \<open>inv\<close> predicate in the source lists: head
  and tail for a cons (\<open>cons_inv\<close>), data for a function (\<open>function_inv\<close>), none for nil
  and atom.  They are read from the payload; \<open>class_ok\<close> says that the payload is the one
  of the object's class, which is what \<open>class->inv\<close> holding for the object means.
\<close>

definition children_of :: "object \<Rightarrow> addr list" where
  "children_of ob =
     (case payload ob of
        Cons_payload tin hp tp \<Rightarrow> [hp, tp]
      | Function_payload ap d \<Rightarrow> [d]
      | _ \<Rightarrow> [])"

definition class_ok :: "object \<Rightarrow> bool" where
  "class_ok ob =
     (case class_ptr ob of
        nil_class \<Rightarrow> payload ob = No_payload
      | cons_class \<Rightarrow> (case payload ob of Cons_payload tin hp tp \<Rightarrow> True | _ \<Rightarrow> False)
      | atom_class \<Rightarrow> (case payload ob of Atom_payload cs \<Rightarrow> True | _ \<Rightarrow> False)
      | function_class \<Rightarrow> (case payload ob of Function_payload ap d \<Rightarrow> True | _ \<Rightarrow> False))"

text \<open>
  Reachability: \<open>child_rel\<close> relates an allocated object to each of its children, and
  \<open>reachable h R\<close> is everything that a path of children reaches from \<open>R\<close>, \<open>R\<close>
  included.
\<close>

definition child_rel :: "store \<Rightarrow> (addr \<times> addr) set" where
  "child_rel h = {(a, b). \<exists>ob. h a = Some ob \<and> b \<in> set (children_of ob)}"

definition reachable :: "store \<Rightarrow> addr set \<Rightarrow> addr set" where
  "reachable h R = (child_rel h)\<^sup>* `` R"

definition is_marked :: "store \<Rightarrow> addr \<Rightarrow> bool" where
  "is_marked h a = (case h a of None \<Rightarrow> False | Some ob \<Rightarrow> marked ob)"

text \<open>
  A well-formed graph on the objects \<open>objs\<close> (the precondition \<open>heap_marking\<close> of
  \<open>mark\<close>, without its bookkeeping of marks): no null object, every object allocated with
  the layout of its class, every child again among the objects.
\<close>

definition graph_ok :: "store \<Rightarrow> addr list \<Rightarrow> bool" where
  "graph_ok h objs =
     (0 \<notin> set objs \<and>
      (\<forall>a \<in> set objs.
         case h a of
           None \<Rightarrow> False
         | Some ob \<Rightarrow> class_ok ob \<and> set (children_of ob) \<subseteq> set objs))"

section \<open>The invariant of the marker\<close>

text \<open>
  \<open>finished ob\<close> is what the traversal leaves of an object \<open>ob\<close> it has entered and
  left: marked, child pointers restored, cursor flag cleared.  \<open>busy p i gp\<close> is the
  payload of an object under traversal whose original payload is \<open>p\<close>, with the cursor at
  child \<open>i\<close> and the grandparent \<open>gp\<close> stored in place of that child
  (\<open>cons_marking_inv\<close>, \<open>function_marking_inv\<close>).
\<close>

definition finished :: "object \<Rightarrow> object" where
  "finished ob =
     ob\<lparr>marked := True,
        payload := (case payload ob of
                      Cons_payload tin hp tp \<Rightarrow> Cons_payload False hp tp
                    | p \<Rightarrow> p)\<rparr>"

definition busy :: "payload \<Rightarrow> nat \<Rightarrow> addr \<Rightarrow> payload" where
  "busy p i gp =
     (case p of
        Cons_payload tin hp tp \<Rightarrow>
          if i = 0 then Cons_payload True gp tp else Cons_payload False hp gp
      | Function_payload ap d \<Rightarrow> Function_payload ap gp
      | _ \<Rightarrow> p)"

text \<open>
  The reversed pointers form a stack \<open>stk\<close>, top first, from \<open>parent\<close> down to the root.
  \<open>stack_frame h0 h c p gp\<close>: in the current memory \<open>h\<close> the object \<open>p\<close> is under
  traversal, its cursor is at the child that was \<open>c\<close> in the initial memory \<open>h0\<close>, the
  earlier children are marked, and the slot of \<open>c\<close> holds \<open>gp\<close>.  \<open>chain\<close> asks this of
  every object of the stack, each one being the current child of the next, down to the
  root.
\<close>

definition stack_frame :: "store \<Rightarrow> store \<Rightarrow> addr \<Rightarrow> addr \<Rightarrow> addr \<Rightarrow> bool" where
  "stack_frame h0 h c p gp =
     (\<exists>ob0 i. h0 p = Some ob0 \<and> \<not> marked ob0 \<and> i < length (children_of ob0) \<and>
        h p = Some (ob0\<lparr>marked := True, payload := busy (payload ob0) i gp\<rparr>) \<and>
        children_of ob0 ! i = c \<and>
        (\<forall>b \<in> set (take i (children_of ob0)). is_marked h b))"

fun top_of :: "addr list \<Rightarrow> addr" where
  "top_of [] = 0"
| "top_of (p # ps) = p"

fun chain :: "store \<Rightarrow> store \<Rightarrow> addr \<Rightarrow> addr \<Rightarrow> addr list \<Rightarrow> bool" where
  "chain h0 h root c [] = (c = root)"
| "chain h0 h root c (p # ps) = (stack_frame h0 h c p (top_of ps) \<and> chain h0 h root p ps)"

text \<open>
  An object off the stack is \<open>settled\<close>: either untouched, or entered and left, and then
  it was unmarked before, is reachable from the root, and all its children are marked.
\<close>

definition settled :: "store \<Rightarrow> store \<Rightarrow> addr list \<Rightarrow> addr \<Rightarrow> addr \<Rightarrow> bool" where
  "settled h0 h objs root a =
     (h a = h0 a \<or>
      (a \<in> set objs \<and> a \<in> reachable h0 {root} \<and>
       (\<exists>ob0. h0 a = Some ob0 \<and> \<not> marked ob0 \<and> h a = Some (finished ob0) \<and>
              (\<forall>b \<in> set (children_of ob0). is_marked h b))))"

text \<open>The invariant of the loop, at either label, with the stack as a ghost variable.\<close>

definition sw_inv ::
  "store \<Rightarrow> addr list \<Rightarrow> addr \<Rightarrow> label \<Rightarrow> addr \<Rightarrow> addr \<Rightarrow> store \<Rightarrow> addr list \<Rightarrow> bool" where
  "sw_inv h0 objs root pc obj parent h stk =
     (parent = top_of stk \<and> distinct stk \<and> set stk \<subseteq> set objs \<and> obj \<in> set objs \<and>
      chain h0 h root obj stk \<and>
      (\<forall>a. a \<notin> set stk \<longrightarrow> settled h0 h objs root a) \<and>
      (pc = L_mark_next \<longrightarrow> is_marked h obj) \<and>
      obj \<in> reachable h0 {root} \<and> set stk \<subseteq> reachable h0 {root})"

text \<open>
  The measure: the number of unmarked objects, then the number of cursor moves and returns
  still due on the stack, then the label.
\<close>

definition weight :: "store \<Rightarrow> addr \<Rightarrow> nat" where
  "weight h p =
     (case h p of
        None \<Rightarrow> 1
      | Some ob \<Rightarrow> (case payload ob of Cons_payload tin hp tp \<Rightarrow> if tin then 2 else 1 | _ \<Rightarrow> 1))"

definition unmarked_count :: "store \<Rightarrow> addr list \<Rightarrow> nat" where
  "unmarked_count h objs = card {a \<in> set objs. \<not> is_marked h a}"

definition sw_rel :: "addr list \<Rightarrow> ((label \<times> store \<times> addr list) \<times> (label \<times> store \<times> addr list)) set" where
  "sw_rel objs =
     inv_image (less_than <*lex*> less_than <*lex*> less_than)
       (\<lambda>(pc, h, stk). (unmarked_count h objs, sum_list (map (weight h) stk),
                         (if pc = L_start_marking then 1 else 0 :: nat)))"

section \<open>What \<open>mark\<close> computes\<close>

text \<open>
  \<open>painted h S\<close> is the memory \<open>h\<close> with every unmarked object of \<open>S\<close> entered and left.
  \<open>marks_closed\<close> says that the children of a marked object are marked, as they are
  between two calls of \<open>mark\<close> in \<open>gc\<close>.
\<close>

definition painted :: "store \<Rightarrow> addr set \<Rightarrow> store" where
  "painted h S = (\<lambda>a. if a \<in> S \<and> \<not> is_marked h a then map_option finished (h a) else h a)"

definition marks_closed :: "store \<Rightarrow> addr list \<Rightarrow> bool" where
  "marks_closed h objs =
     (\<forall>a \<in> set objs. is_marked h a \<longrightarrow>
        (case h a of None \<Rightarrow> True | Some ob \<Rightarrow> \<forall>b \<in> set (children_of ob). is_marked h b))"

section \<open>The heap list and the sweep\<close>

text \<open>
  \<open>object_list h p objs\<close>: following \<open>next\<close> from \<open>p\<close> visits exactly \<open>objs\<close>, in order,
  and ends at the null pointer (the predicate of the same name in the source).
\<close>

primrec object_list :: "store \<Rightarrow> addr \<Rightarrow> addr list \<Rightarrow> bool" where
  "object_list h p [] = (p = 0)"
| "object_list h p (a # as) =
     (p = a \<and> a \<noteq> 0 \<and>
      (case h a of None \<Rightarrow> False | Some ob \<Rightarrow> object_list h (next_ptr ob) as))"

text \<open>
  The sweep from the link \<open>l\<close> over the list \<open>objs\<close>.  \<open>link_ok\<close>: a link into an object
  points into an allocated object that is not on the rest of the list.  \<open>swept l s objs s'\<close>
  describes the state after the loop: the list from \<open>l\<close> holds the objects that were
  marked, in their order; these keep class and payload and are unmarked; the others are
  freed; nothing else changes but the \<open>next\<close> field behind \<open>l\<close>; the count has dropped by
  the number of objects freed.
\<close>

definition link_ok :: "link \<Rightarrow> store \<Rightarrow> addr list \<Rightarrow> bool" where
  "link_ok l h objs = (case l of Heap_head_ptr \<Rightarrow> True | Next_field p \<Rightarrow> p \<notin> set objs \<and> h p \<noteq> None)"

definition kept :: "object \<Rightarrow> object \<Rightarrow> bool" where
  "kept ob ob' = (\<not> marked ob' \<and> class_ptr ob' = class_ptr ob \<and> payload ob' = payload ob)"

definition relinked :: "object \<Rightarrow> object \<Rightarrow> bool" where
  "relinked ob ob' =
     (marked ob' = marked ob \<and> class_ptr ob' = class_ptr ob \<and> payload ob' = payload ob)"

definition swept :: "link \<Rightarrow> state \<Rightarrow> addr list \<Rightarrow> state \<Rightarrow> bool" where
  "swept l s objs s' =
     ((\<exists>p'. read_link l s' = Some p' \<and>
            object_list (memory s') p' (filter (is_marked (memory s)) objs)) \<and>
      (\<forall>a \<in> set objs.
         if is_marked (memory s) a
         then \<exists>ob ob'. memory s a = Some ob \<and> memory s' a = Some ob' \<and> kept ob ob'
         else memory s' a = None) \<and>
      (\<forall>a. a \<notin> set objs \<longrightarrow> l \<noteq> Next_field a \<longrightarrow> memory s' a = memory s a) \<and>
      (\<forall>p. l = Next_field p \<longrightarrow>
           (\<exists>ob ob'. memory s p = Some ob \<and> memory s' p = Some ob' \<and> relinked ob ob')) \<and>
      object_count s' = object_count s - int (length (filter (\<lambda>a. \<not> is_marked (memory s) a) objs)) \<and>
      roots_head s' = roots_head s \<and> cells s' = cells s \<and>
      (l \<noteq> Heap_head_ptr \<longrightarrow> heap_head s' = heap_head s))"

text \<open>Every unmarked object of the list can be disposed of: its class is not nil.\<close>

definition disposable :: "store \<Rightarrow> addr list \<Rightarrow> bool" where
  "disposable h objs =
     (\<forall>a \<in> set objs. \<not> is_marked h a \<longrightarrow>
        (case h a of None \<Rightarrow> False | Some ob \<Rightarrow> class_ok ob \<and> class_ptr ob \<noteq> nil_class))"

section \<open>The heap invariant\<close>

text \<open>
  The predicate \<open>heap\<close> of the source together with the counter invariant: the heap list
  from \<open>heap_head\<close> is \<open>objs\<close>; its objects form a well-formed graph and are unmarked;
  every cell on the root stack holds an object of the list; \<open>object_count\<close> is the length
  of the list and does not exceed the cap.
\<close>

definition heap_inv :: "state \<Rightarrow> addr list \<Rightarrow> bool" where
  "heap_inv s objs =
     (object_list (memory s) (heap_head s) objs \<and>
      graph_ok (memory s) objs \<and>
      (\<forall>a \<in> set objs. \<not> is_marked (memory s) a) \<and>
      (\<forall>r \<in> set (roots_head s). cells s r \<in> set objs) \<and>
      object_count s = int (length objs) \<and>
      object_count s \<le> 10000)"

text \<open>
  The objects held by the cells on the root stack, and the objects reachable from them.
  A \<open>dead_nil\<close> is an unmarked object of class nil: disposing of it aborts.
\<close>

definition root_values :: "state \<Rightarrow> addr set" where
  "root_values s = cells s ` set (roots_head s)"

definition live :: "state \<Rightarrow> addr set" where
  "live s = reachable (memory s) (root_values s)"

definition dead_nil :: "store \<Rightarrow> addr \<Rightarrow> bool" where
  "dead_nil h a =
     (\<not> is_marked h a \<and> (case h a of None \<Rightarrow> False | Some ob \<Rightarrow> class_ptr ob = nil_class))"

text \<open>
  The state after a collection: the invariant holds for the reachable objects of the old
  list, in their old order; roots and cells are as before; reachable objects keep class and
  children; unreachable objects of the list are freed; memory off the list is untouched.
\<close>

definition collected :: "state \<Rightarrow> addr list \<Rightarrow> state \<Rightarrow> bool" where
  "collected s objs s' =
     (heap_inv s' (filter (\<lambda>a. a \<in> live s) objs) \<and>
      roots_head s' = roots_head s \<and> cells s' = cells s \<and>
      (\<forall>a \<in> live s. \<exists>ob ob'. memory s a = Some ob \<and> memory s' a = Some ob' \<and>
           class_ptr ob' = class_ptr ob \<and> children_of ob' = children_of ob) \<and>
      (\<forall>a \<in> set objs. a \<notin> live s \<longrightarrow> memory s' a = None) \<and>
      (\<forall>a. a \<notin> set objs \<longrightarrow> memory s' a = memory s a))"

text \<open>
  The state after \<open>register_object\<close>: the invariant holds with \<open>obj\<close> in front of objects
  of the old list, among them all objects held by rooted cells.
\<close>

definition registered :: "addr \<Rightarrow> state \<Rightarrow> addr list \<Rightarrow> state \<Rightarrow> addr list \<Rightarrow> bool" where
  "registered obj s objs s' objs' =
     (heap_inv s' (obj # objs') \<and> set objs' \<subseteq> set objs \<and> root_values s \<subseteq> set objs' \<and>
      roots_head s' = roots_head s \<and> cells s' = cells s)"

section \<open>The public entry points\<close>

text \<open>
  The entry points of the interface, each with its arguments (for a constructor, the
  address that \<open>malloc\<close> returns comes first), and the state in which a call returns.
\<close>

datatype entry =
    Init_globals
  | Register_object addr class_ref
  | Create_nil
  | Create_cons addr addr addr
  | Create_atom addr string
  | Create_function addr apply_func addr
  | Push_root cell
  | Pop_root
  | Set_root cell addr
  | Gc
  | Push addr addr
  | Pop
  | Push_cont addr addr
  | Pop_cont
  | Destruct_cons addr
  | Atom_equals addr addr
  | Assoc addr addr

definition final_state :: "(error + ('a \<times> state)) option \<Rightarrow> (error + state) option" where
  "final_state r =
     (case r of None \<Rightarrow> None | Some (Inl e) \<Rightarrow> Some (Inl e) | Some (Inr (v, s')) \<Rightarrow> Some (Inr s'))"

definition unchanged :: "state \<Rightarrow> (error + 'a) option \<Rightarrow> (error + state) option" where
  "unchanged s r =
     (case r of None \<Rightarrow> None | Some (Inl e) \<Rightarrow> Some (Inl e) | Some (Inr v) \<Rightarrow> Some (Inr s))"

fun call :: "entry \<Rightarrow> state \<Rightarrow> (error + state) option" where
  "call Init_globals s = init_globals s"
| "call (Register_object obj cl) s = register_object obj cl s"
| "call Create_nil s = Some (Inr (snd (create_nil s)))"
| "call (Create_cons new head_arg tail_arg) s = final_state (create_cons new head_arg tail_arg s)"
| "call (Create_atom new buffer) s = final_state (create_atom new buffer s)"
| "call (Create_function new ap data_arg) s = final_state (create_function new ap data_arg s)"
| "call (Push_root root) s = Some (Inr (push_root root s))"
| "call Pop_root s = Some (pop_root s)"
| "call (Set_root root v) s = Some (Inr (set_root root v s))"
| "call Gc s = gc s"
| "call (Push new obj) s = push new obj s"
| "call Pop s = final_state (Some (pop s))"
| "call (Push_cont new obj) s = push_cont new obj s"
| "call Pop_cont s = final_state (Some (pop_cont s))"
| "call (Destruct_cons obj) s = unchanged s (Some (destruct_cons obj s))"
| "call (Atom_equals object1 object2) s = unchanged s (Some (atom_equals object1 object2 s))"
| "call (Assoc key map_arg) s = unchanged s (assoc key map_arg s)"

text \<open>
  What the contracts in the source ask of the caller, as far as the invariant needs it:
  \<open>init_globals\<close> runs at program start; a registered block is allocated, not on the heap
  list, laid out for its class, and each of its children is held by a cell on the root
  stack; \<open>malloc\<close> returns null or an unallocated address; object arguments are on the
  heap list.
\<close>

fun entry_pre :: "entry \<Rightarrow> state \<Rightarrow> addr list \<Rightarrow> bool" where
  "entry_pre Init_globals s objs = (s = initial_state)"
| "entry_pre (Register_object obj cl) s objs =
     (obj \<noteq> 0 \<and> obj \<notin> set objs \<and>
      (case memory s obj of
         None \<Rightarrow> False
       | Some ob \<Rightarrow> class_ok (ob\<lparr>class_ptr := cl\<rparr>) \<and> set (children_of ob) \<subseteq> root_values s))"
| "entry_pre (Create_cons new head_arg tail_arg) s objs =
     ((new = 0 \<or> memory s new = None) \<and> head_arg \<in> set objs \<and> tail_arg \<in> set objs)"
| "entry_pre (Create_atom new buffer) s objs = (new = 0 \<or> memory s new = None)"
| "entry_pre (Create_function new ap data_arg) s objs =
     ((new = 0 \<or> memory s new = None) \<and> data_arg \<in> set objs)"
| "entry_pre (Push_root root) s objs = (cells s root \<in> set objs)"
| "entry_pre (Set_root root v) s objs = (v \<in> set objs)"
| "entry_pre (Push new obj) s objs =
     ((new = 0 \<or> memory s new = None) \<and> obj \<in> set objs \<and> cells s operand_stack \<in> set objs)"
| "entry_pre (Push_cont new obj) s objs =
     ((new = 0 \<or> memory s new = None) \<and> obj \<in> set objs \<and> cells s cont_stack \<in> set objs)"
| "entry_pre e s objs = True"

section \<open>Example heaps\<close>

text \<open>
  A small heap used to instantiate the theorems: \<open>nil_value\<close> at 1, two cons cells at 2 and
  3 whose heads point at each other (a cycle) and whose tails are nil, and an atom at 4
  that nothing refers to.  The heap list is 4, 3, 2, 1; the root stack holds a mutator
  cell that points to 2 and \<open>nil_root\<close>.
\<close>

definition ex_cell :: "class_ref \<Rightarrow> payload \<Rightarrow> addr \<Rightarrow> object" where
  "ex_cell c p n = \<lparr>next_ptr = n, marked = False, class_ptr = c, payload = p\<rparr>"

definition ex_mem :: store where
  "ex_mem = [1 \<mapsto> ex_cell nil_class No_payload 0,
             2 \<mapsto> ex_cell cons_class (Cons_payload False 3 1) 1,
             3 \<mapsto> ex_cell cons_class (Cons_payload False 2 1) 2,
             4 \<mapsto> ex_cell atom_class (Atom_payload ''A'') 3]"

definition ex_state :: state where
  "ex_state = \<lparr>memory = ex_mem, heap_head = 4, roots_head = [mutator_cell 0, nil_root],
      object_count = 4, cells = (\<lambda>c. 0)(nil_root := 1, mutator_cell 0 := 2)\<rparr>"

text \<open>
  A cons cell at 5 in the middle of its traversal, cursor at its first child: the flag
  \<open>tail_is_next\<close> is set, the head field holds the grandparent 7, the tail field the
  second child 9.  The first child, 8, is the object the marker has just finished.
\<close>

definition busy_cons :: object where
  "busy_cons = \<lparr>next_ptr = 0, marked = True, class_ptr = cons_class,
                 payload = Cons_payload True 7 9\<rparr>"

definition result_memory :: "marking_result \<Rightarrow> store" where
  "result_memory r = (case r of Inl e \<Rightarrow> Map.empty | Inr (again, obj, parent, h) \<Rightarrow> h)"

text \<open>A cons cell that is already marked.\<close>

definition marked_cons :: object where
  "marked_cons = \<lparr>next_ptr = 2, marked = True, class_ptr = cons_class,
                   payload = Cons_payload False 2 1\<rparr>"

text \<open>
  Three states for \<open>register_object\<close>.  In each the block at 9 is the new object, not yet
  linked.  \<open>reg_below\<close>: one object on the heap list, count 1.  \<open>reg_full\<close>: the count is
  at the cap, the heap list holds one rooted atom, so a collection frees nothing.
  \<open>reg_garbage\<close>: the count is at the cap, the heap list holds one atom that no root
  refers to, so a collection frees it.
\<close>

definition reg_mem :: store where
  "reg_mem = [9 \<mapsto> fresh_block (Atom_payload ''N''),
              2 \<mapsto> ex_cell atom_class (Atom_payload ''B'') 0]"

definition reg_below :: state where
  "reg_below = \<lparr>memory = reg_mem, heap_head = 2, roots_head = [],
      object_count = 1, cells = (\<lambda>c. 0)\<rparr>"

definition reg_full :: state where
  "reg_full = \<lparr>memory = reg_mem, heap_head = 2, roots_head = [mutator_cell 0],
      object_count = 10000, cells = (\<lambda>c. 0)(mutator_cell 0 := 2)\<rparr>"

definition reg_garbage :: state where
  "reg_garbage = \<lparr>memory = reg_mem, heap_head = 2, roots_head = [],
      object_count = 10000, cells = (\<lambda>c. 0)\<rparr>"

definition reg_collected :: state where
  "reg_collected = \<lparr>memory = reg_mem(2 := None), heap_head = 0, roots_head = [],
      object_count = 9999, cells = (\<lambda>c. 0)\<rparr>"

definition reg_linked :: state where
  "reg_linked = \<lparr>memory = reg_mem(9 \<mapsto> ex_cell atom_class (Atom_payload ''N'') 2),
      heap_head = 9, roots_head = [], object_count = 2, cells = (\<lambda>c. 0)\<rparr>"

text \<open>
  The example state after \<open>create_cons\<close> of a cell at 9 with head 2 and tail 1, and after
  a collection.
\<close>

definition ex_with_cons :: state where
  "ex_with_cons =
     \<lparr>memory = [1 \<mapsto> ex_cell nil_class No_payload 0,
                 2 \<mapsto> ex_cell cons_class (Cons_payload False 3 1) 1,
                 3 \<mapsto> ex_cell cons_class (Cons_payload False 2 1) 2,
                 4 \<mapsto> ex_cell atom_class (Atom_payload ''A'') 3,
                 9 \<mapsto> ex_cell cons_class (Cons_payload False 2 1) 4],
      heap_head = 9, roots_head = [mutator_cell 0, nil_root], object_count = 5,
      cells = (\<lambda>c. 0)(nil_root := 1, mutator_cell 0 := 2, create_cons_head := 2,
                         create_cons_tail := 1)\<rparr>"

definition ex_collected :: state where
  "ex_collected =
     \<lparr>memory = [3 \<mapsto> ex_cell cons_class (Cons_payload False 2 1) 2,
                 2 \<mapsto> ex_cell cons_class (Cons_payload False 3 1) 1,
                 1 \<mapsto> ex_cell nil_class No_payload 0],
      heap_head = 3, roots_head = [mutator_cell 0, nil_root], object_count = 3,
      cells = (\<lambda>c. 0)(nil_root := 1, mutator_cell 0 := 2)\<rparr>"

section \<open>Total correctness of the marker\<close>

lemma is_marked_upd [simp]:
  "is_marked (h(a \<mapsto> ob)) b = (if b = a then marked ob else is_marked h b)"
  by (simp add: is_marked_def)

lemma stack_frame_mono:
  assumes "stack_frame h0 h c p gp" "h' p = h p" "\<And>b. is_marked h b \<Longrightarrow> is_marked h' b"
  shows "stack_frame h0 h' c p gp"
  using assms unfolding stack_frame_def by metis

lemma chain_mono:
  assumes "chain h0 h root c stk" "\<And>p. p \<in> set stk \<Longrightarrow> h' p = h p"
    "\<And>b. is_marked h b \<Longrightarrow> is_marked h' b"
  shows "chain h0 h' root c stk"
  using assms
proof (induction stk arbitrary: c)
  case Nil
  then show ?case by simp
next
  case (Cons p ps)
  have "stack_frame h0 h' c p (top_of ps)"
    using Cons.prems by (auto intro: stack_frame_mono)
  moreover have "chain h0 h' root p ps"
    using Cons.prems by (auto intro: Cons.IH)
  ultimately show ?case by simp
qed

lemma settled_mono:
  assumes "settled h0 h objs root a" "h' a = h a" "\<And>b. is_marked h b \<Longrightarrow> is_marked h' b"
  shows "settled h0 h' objs root a"
  using assms unfolding settled_def by metis

lemma stack_frame_marked: "stack_frame h0 h c p gp \<Longrightarrow> is_marked h p"
  by (auto simp: stack_frame_def is_marked_def)

lemma chain_marked: "chain h0 h root c stk \<Longrightarrow> p \<in> set stk \<Longrightarrow> is_marked h p"
  by (induction stk arbitrary: c) (auto dest: stack_frame_marked)

lemma chain_top_frame: "chain h0 h root c stk \<Longrightarrow> stk \<noteq> [] \<Longrightarrow> stack_frame h0 h c (top_of stk) (top_of (tl stk))"
  by (cases stk) auto

lemma graph_okD:
  "graph_ok h objs \<Longrightarrow> a \<in> set objs \<Longrightarrow>
     \<exists>ob. h a = Some ob \<and> class_ok ob \<and> set (children_of ob) \<subseteq> set objs"
  by (auto simp: graph_ok_def split: option.splits)

lemma graph_ok_nonnull: "graph_ok h objs \<Longrightarrow> a \<in> set objs \<Longrightarrow> a \<noteq> 0"
  unfolding graph_ok_def by metis

lemma reachable_step:
  "a \<in> reachable h R \<Longrightarrow> h a = Some ob \<Longrightarrow> b \<in> set (children_of ob) \<Longrightarrow> b \<in> reachable h R"
  unfolding reachable_def child_rel_def
  by (auto intro: rtrancl_into_rtrancl)

text \<open>An object that is not yet marked has not been touched.\<close>

lemma unmarked_untouched:
  assumes "sw_inv h0 objs root pc obj parent h stk" "\<not> is_marked h a"
  shows "h a = h0 a"
proof -
  have "a \<notin> set stk"
    using assms chain_marked[of h0 h root obj stk a] by (auto simp: sw_inv_def)
  then have "settled h0 h objs root a"
    using assms by (simp add: sw_inv_def)
  then show ?thesis
    using assms(2) by (auto simp: settled_def is_marked_def finished_def)
qed

lemma wf_sw_rel: "wf (sw_rel objs)"
  unfolding sw_rel_def by (intro wf_inv_image wf_lex_prod wf_less_than)

lemma unmarked_count_less:
  assumes "a \<in> set objs" "\<not> is_marked h a" "is_marked h' a"
    "\<And>b. is_marked h b \<Longrightarrow> is_marked h' b"
  shows "unmarked_count h' objs < unmarked_count h objs"
proof -
  have "{b \<in> set objs. \<not> is_marked h' b} \<subset> {b \<in> set objs. \<not> is_marked h b}"
    using assms by auto
  then show ?thesis
    unfolding unmarked_count_def by (intro psubset_card_mono) auto
qed

lemma unmarked_count_same:
  assumes "\<And>b. is_marked h' b = is_marked h b"
  shows "unmarked_count h' objs = unmarked_count h objs"
  using assms by (simp add: unmarked_count_def)

lemma weight_same: "(\<And>p. p \<in> set ps \<Longrightarrow> h' p = h p) \<Longrightarrow> map (weight h') ps = map (weight h) ps"
  by (simp add: weight_def)

lemma weight_pos: "0 < weight h p"
  by (simp add: weight_def split: option.splits payload.splits)

subsection \<open>start, object already marked\<close>

lemma loop_start_marked:
  "h obj = Some ob \<Longrightarrow> marked ob \<Longrightarrow>
     mark_loop L_start_marking obj parent h = mark_loop L_mark_next obj parent h"
  by (subst mark_loop.simps) simp

lemma inv_start_marked:
  assumes "sw_inv h0 objs root L_start_marking obj parent h stk" "is_marked h obj"
  shows "sw_inv h0 objs root L_mark_next obj parent h stk"
  using assms by (simp add: sw_inv_def)

subsection \<open>start, leaf object\<close>

lemma loop_start_leaf:
  assumes "h obj = Some ob" "\<not> marked ob" "class_ok ob"
    "class_ptr ob = nil_class \<or> class_ptr ob = atom_class"
  shows "mark_loop L_start_marking obj parent h =
         mark_loop L_mark_next obj parent (h(obj \<mapsto> ob\<lparr>marked := True\<rparr>))"
  using assms
  by (subst mark_loop.simps) (auto simp: nil_start_marking_def atom_start_marking_def)

lemma inv_start_leaf:
  assumes inv: "sw_inv h0 objs root L_start_marking obj parent h stk"
    and ob: "h obj = Some ob" "\<not> marked ob" "children_of ob = []"
  shows "sw_inv h0 objs root L_mark_next obj parent (h(obj \<mapsto> ob\<lparr>marked := True\<rparr>)) stk"
proof -
  let ?h = "h(obj \<mapsto> ob\<lparr>marked := True\<rparr>)"
  have unm: "\<not> is_marked h obj" using ob by (simp add: is_marked_def)
  have h0: "h0 obj = Some ob" using unmarked_untouched[OF inv unm] ob by simp
  have nstk: "obj \<notin> set stk"
    using inv unm chain_marked[of h0 h root obj stk obj] by (auto simp: sw_inv_def)
  have grow: "\<And>b. is_marked h b \<Longrightarrow> is_marked ?h b" by simp
  have same: "\<And>p. p \<noteq> obj \<Longrightarrow> ?h p = h p" by simp
  have ch: "chain h0 ?h root obj stk"
    using inv nstk by (intro chain_mono[of h0 h root obj stk ?h]) (auto simp: sw_inv_def)
  have fin: "finished ob = ob\<lparr>marked := True\<rparr>"
    using ob(3) by (auto simp: finished_def children_of_def split: payload.splits)
  have s_obj: "settled h0 ?h objs root obj"
    using inv h0 ob fin by (simp add: settled_def sw_inv_def)
  have s_all: "\<And>a. a \<notin> set stk \<Longrightarrow> settled h0 ?h objs root a"
  proof -
    fix a assume a: "a \<notin> set stk"
    show "settled h0 ?h objs root a"
    proof (cases "a = obj")
      case True then show ?thesis using s_obj by simp
    next
      case False
      have "settled h0 h objs root a" using inv a by (simp add: sw_inv_def)
      then show ?thesis using False by (intro settled_mono[of h0 h objs root a ?h]) auto
    qed
  qed
  show ?thesis
    using inv ch s_all by (simp add: sw_inv_def)
qed

subsection \<open>start, object with children\<close>

lemma loop_start_inner:
  assumes "h obj = Some ob" "\<not> marked ob" "class_ok ob"
    "class_ptr ob = cons_class \<or> class_ptr ob = function_class"
  shows "\<exists>c cs. children_of ob = c # cs \<and>
           mark_loop L_start_marking obj parent h =
           mark_loop L_start_marking c obj
             (h(obj \<mapsto> ob\<lparr>marked := True, payload := busy (payload ob) 0 parent\<rparr>))"
  using assms
  by (subst mark_loop.simps)
     (auto simp: class_ok_def children_of_def busy_def cons_start_marking_def
        function_start_marking_def split: payload.splits)

lemma class_ok_leaf:
  "class_ok ob \<Longrightarrow> class_ptr ob = nil_class \<or> class_ptr ob = atom_class \<Longrightarrow> children_of ob = []"
  by (auto simp: class_ok_def children_of_def split: payload.splits)

lemma inv_start_inner:
  assumes g: "graph_ok h0 objs"
    and inv: "sw_inv h0 objs root L_start_marking obj parent h stk"
    and ob: "h obj = Some ob" "\<not> marked ob" "children_of ob = c # cs"
  shows "sw_inv h0 objs root L_start_marking c obj
           (h(obj \<mapsto> ob\<lparr>marked := True, payload := busy (payload ob) 0 parent\<rparr>)) (obj # stk)"
proof -
  let ?h = "h(obj \<mapsto> ob\<lparr>marked := True, payload := busy (payload ob) 0 parent\<rparr>)"
  have unm: "\<not> is_marked h obj" using ob by (simp add: is_marked_def)
  have h0: "h0 obj = Some ob" using unmarked_untouched[OF inv unm] ob by simp
  have nstk: "obj \<notin> set stk"
    using inv unm chain_marked[of h0 h root obj stk obj] by (auto simp: sw_inv_def)
  have obj_in: "obj \<in> set objs" and par: "parent = top_of stk"
    and obj_r: "obj \<in> reachable h0 {root}"
    using inv by (auto simp: sw_inv_def)
  have c_in: "c \<in> set objs"
    using graph_okD[OF g obj_in] h0 ob(3) by auto
  have c_r: "c \<in> reachable h0 {root}"
    using reachable_step[OF obj_r h0] ob(3) by simp
  have ch: "chain h0 ?h root obj stk"
    using inv nstk by (intro chain_mono[of h0 h root obj stk ?h]) (auto simp: sw_inv_def)
  have fr: "stack_frame h0 ?h c obj (top_of stk)"
    unfolding stack_frame_def using h0 ob par
    by (intro exI[of _ ob] exI[of _ 0]) simp
  have s_all: "\<And>a. a \<notin> set (obj # stk) \<Longrightarrow> settled h0 ?h objs root a"
  proof -
    fix a assume a: "a \<notin> set (obj # stk)"
    have "settled h0 h objs root a" using inv a by (simp add: sw_inv_def)
    then show "settled h0 ?h objs root a"
      using a by (intro settled_mono[of h0 h objs root a ?h]) auto
  qed
  show ?thesis
    unfolding sw_inv_def
    using inv ch fr s_all nstk obj_in c_in c_r obj_r by (simp add: sw_inv_def)
qed

subsection \<open>advance\<close>

lemma loop_next:
  assumes "h p = Some (ob0\<lparr>marked := True, payload := busy (payload ob0) i gp\<rparr>)"
    "i < length (children_of ob0)" "children_of ob0 ! i = obj" "class_ok ob0" "p \<noteq> 0"
  shows "mark_loop L_mark_next obj p h =
           (if Suc i < length (children_of ob0)
            then mark_loop L_start_marking (children_of ob0 ! Suc i) p
                   (h(p \<mapsto> ob0\<lparr>marked := True, payload := busy (payload ob0) (Suc i) gp\<rparr>))
            else mark_loop L_mark_next p gp (h(p \<mapsto> finished ob0)))"
proof (cases "payload ob0")
  case No_payload
  then show ?thesis using assms by (simp add: children_of_def)
next
  case (Cons_payload tin hp tp)
  then have cls: "class_ptr ob0 = cons_class"
    using assms(4) by (auto simp: class_ok_def split: class_ref.splits)
  show ?thesis
  proof (cases "i = 0")
    case True
    then show ?thesis
      using assms Cons_payload cls
      by (subst mark_loop.simps)
         (simp add: children_of_def busy_def cons_mark_next_def)
  next
    case False
    then have "i = 1" using assms(2) Cons_payload by (simp add: children_of_def)
    then show ?thesis
      using assms Cons_payload cls
      by (subst mark_loop.simps)
         (simp add: children_of_def busy_def cons_mark_next_def finished_def)
  qed
next
  case (Atom_payload cs)
  then show ?thesis using assms by (simp add: children_of_def)
next
  case (Function_payload ap d)
  then have cls: "class_ptr ob0 = function_class"
    using assms(4) by (auto simp: class_ok_def split: class_ref.splits)
  show ?thesis
    using assms Function_payload cls
    by (subst mark_loop.simps)
       (simp add: children_of_def busy_def function_mark_next_def finished_def)
qed

lemma inv_next_more:
  assumes g: "graph_ok h0 objs"
    and inv: "sw_inv h0 objs root L_mark_next obj p h (p # ps)"
    and fr: "h0 p = Some ob0" "\<not> marked ob0"
      "h p = Some (ob0\<lparr>marked := True, payload := busy (payload ob0) i (top_of ps)\<rparr>)"
      "children_of ob0 ! i = obj" "\<forall>b \<in> set (take i (children_of ob0)). is_marked h b"
    and more: "Suc i < length (children_of ob0)"
  shows "sw_inv h0 objs root L_start_marking (children_of ob0 ! Suc i) p
           (h(p \<mapsto> ob0\<lparr>marked := True, payload := busy (payload ob0) (Suc i) (top_of ps)\<rparr>))
           (p # ps)"
proof -
  let ?h = "h(p \<mapsto> ob0\<lparr>marked := True, payload := busy (payload ob0) (Suc i) (top_of ps)\<rparr>)"
  let ?c = "children_of ob0 ! Suc i"
  have p_in: "p \<in> set objs" and p_r: "p \<in> reachable h0 {root}" and np: "p \<notin> set ps"
    and om: "is_marked h obj" and chn: "chain h0 h root p ps"
    using inv by (auto simp: sw_inv_def)
  have pm: "is_marked h p" using fr(3) by (simp add: is_marked_def)
  have same_marks: "\<And>b. is_marked ?h b = is_marked h b" using pm by simp
  have c_mem: "?c \<in> set (children_of ob0)" using more by simp
  have c_in: "?c \<in> set objs"
    using graph_okD[OF g p_in] fr(1) c_mem by auto
  have c_r: "?c \<in> reachable h0 {root}"
    using reachable_step[OF p_r fr(1) c_mem] .
  have tk: "take (Suc i) (children_of ob0) = take i (children_of ob0) @ [obj]"
    using more fr(4) by (simp add: take_Suc_conv_app_nth)
  have frame: "stack_frame h0 ?h ?c p (top_of ps)"
    unfolding stack_frame_def using fr more om pm tk
    by (intro exI[of _ ob0] exI[of _ "Suc i"]) auto
  have ch: "chain h0 ?h root p ps"
    using chn np by (intro chain_mono[of h0 h root p ps ?h]) auto
  have s_all: "\<And>a. a \<notin> set (p # ps) \<Longrightarrow> settled h0 ?h objs root a"
  proof -
    fix a assume a: "a \<notin> set (p # ps)"
    have "settled h0 h objs root a" using inv a by (simp add: sw_inv_def)
    then show "settled h0 ?h objs root a"
      using a pm by (intro settled_mono[of h0 h objs root a ?h]) auto
  qed
  show ?thesis
    unfolding sw_inv_def
    using inv frame ch s_all c_in c_r by (simp add: sw_inv_def)
qed

lemma inv_next_done:
  assumes inv: "sw_inv h0 objs root L_mark_next obj p h (p # ps)"
    and fr: "h0 p = Some ob0" "\<not> marked ob0"
      "h p = Some (ob0\<lparr>marked := True, payload := busy (payload ob0) i (top_of ps)\<rparr>)"
      "children_of ob0 ! i = obj" "\<forall>b \<in> set (take i (children_of ob0)). is_marked h b"
    and last: "Suc i = length (children_of ob0)"
  shows "sw_inv h0 objs root L_mark_next p (top_of ps) (h(p \<mapsto> finished ob0)) ps"
proof -
  let ?h = "h(p \<mapsto> finished ob0)"
  have p_in: "p \<in> set objs" and p_r: "p \<in> reachable h0 {root}" and np: "p \<notin> set ps"
    and om: "is_marked h obj" and chn: "chain h0 h root p ps"
    using inv by (auto simp: sw_inv_def)
  have pm: "is_marked h p" using fr(3) by (simp add: is_marked_def)
  have fm: "marked (finished ob0)" by (simp add: finished_def)
  have same_marks: "\<And>b. is_marked ?h b = is_marked h b" using pm fm by simp
  have tk: "children_of ob0 = take i (children_of ob0) @ [obj]"
    using last fr(4) by (metis lessI take_Suc_conv_app_nth take_all order_refl)
  have kids: "\<forall>b \<in> set (children_of ob0). is_marked h b"
  proof
    fix b assume "b \<in> set (children_of ob0)"
    then have "b \<in> set (take i (children_of ob0) @ [obj])" using tk by simp
    then show "is_marked h b" using fr(5) om by auto
  qed
  have s_p: "settled h0 ?h objs root p"
    unfolding settled_def using fr(1,2) p_in p_r kids same_marks by simp
  have grow: "\<And>b. is_marked h b \<Longrightarrow> is_marked ?h b"
    using same_marks by blast
  have ch: "chain h0 ?h root p ps"
  proof (rule chain_mono[OF chn])
    show "\<And>q. q \<in> set ps \<Longrightarrow> ?h q = h q" using np by auto
    show "\<And>b. is_marked h b \<Longrightarrow> is_marked ?h b" by (rule grow)
  qed
  have s_all: "\<And>a. a \<notin> set ps \<Longrightarrow> settled h0 ?h objs root a"
  proof -
    fix a assume a: "a \<notin> set ps"
    show "settled h0 ?h objs root a"
    proof (cases "a = p")
      case True then show ?thesis using s_p by simp
    next
      case False
      have "settled h0 h objs root a" using inv a False by (simp add: sw_inv_def)
      then show ?thesis
      proof (rule settled_mono)
        show "?h a = h a" using False by simp
        show "\<And>b. is_marked h b \<Longrightarrow> is_marked ?h b" by (rule grow)
      qed
    qed
  qed
  have pm': "is_marked ?h p" using fm by simp
  show ?thesis
    unfolding sw_inv_def
    using inv ch s_all pm' p_in p_r by (simp add: sw_inv_def)
qed

subsection \<open>The measure decreases\<close>

lemma rel_pc:
  "((L_mark_next, h, stk), (L_start_marking, h, stk)) \<in> sw_rel objs"
  by (simp add: sw_rel_def)

lemma rel_mark:
  assumes "a \<in> set objs" "\<not> is_marked h a" "is_marked h' a"
    "\<And>b. is_marked h b \<Longrightarrow> is_marked h' b"
  shows "((pc', h', stk'), (pc, h, stk)) \<in> sw_rel objs"
  using unmarked_count_less[OF assms] by (simp add: sw_rel_def)

lemma rel_more:
  assumes "h p = Some (ob0\<lparr>marked := True, payload := busy (payload ob0) i gp\<rparr>)"
    "Suc i < length (children_of ob0)" "p \<notin> set ps"
  shows "((pc', h(p \<mapsto> ob0\<lparr>marked := True, payload := busy (payload ob0) (Suc i) gp\<rparr>), p # ps),
          (pc, h, p # ps)) \<in> sw_rel objs"
proof -
  let ?h = "h(p \<mapsto> ob0\<lparr>marked := True, payload := busy (payload ob0) (Suc i) gp\<rparr>)"
  have pm: "is_marked h p" using assms(1) by (simp add: is_marked_def)
  have cnt: "unmarked_count ?h objs = unmarked_count h objs"
    using pm by (intro unmarked_count_same) simp
  have ws: "sum_list (map (weight ?h) ps) = sum_list (map (weight h) ps)"
    using assms(3) by (intro arg_cong[where f = sum_list] weight_same) auto
  obtain tin hp tp where pl: "payload ob0 = Cons_payload tin hp tp" and i0: "i = 0"
    using assms(2) by (auto simp: children_of_def split: payload.splits)
  have "weight ?h p < weight h p"
    using assms(1) pl i0 by (simp add: weight_def busy_def)
  then show ?thesis
    using cnt ws by (simp add: sw_rel_def)
qed

lemma rel_done:
  assumes "is_marked h p" "marked ob'" "p \<notin> set ps"
  shows "((pc', h(p \<mapsto> ob'), ps), (pc, h, p # ps)) \<in> sw_rel objs"
proof -
  let ?h = "h(p \<mapsto> ob')"
  have cnt: "unmarked_count ?h objs = unmarked_count h objs"
    using assms(1,2) by (intro unmarked_count_same) simp
  have ws: "sum_list (map (weight ?h) ps) = sum_list (map (weight h) ps)"
    using assms(3) by (intro arg_cong[where f = sum_list] weight_same) auto
  show ?thesis
    using cnt ws weight_pos[of h p] by (simp add: sw_rel_def)
qed

lemma class_cases:
  "class_ptr ob = nil_class \<or> class_ptr ob = atom_class \<or>
   class_ptr ob = cons_class \<or> class_ptr ob = function_class"
  by (cases "class_ptr ob") auto

lemma mark_loop_total:
  assumes g: "graph_ok h0 objs"
  shows "sw_inv h0 objs root pc obj parent h stk \<Longrightarrow>
         \<exists>h'. mark_loop pc obj parent h = Some (Inr h') \<and>
              (\<forall>a. settled h0 h' objs root a) \<and> is_marked h' root"
  using wf_sw_rel[of objs]
proof (induction "(pc, h, stk)" arbitrary: pc h stk obj parent rule: wf_induct_rule)
  case less
  note inv = less.prems
  note IH = less.hyps
  have obj_in: "obj \<in> set objs" and par: "parent = top_of stk" and stk_in: "set stk \<subseteq> set objs"
    and chn: "chain h0 h root obj stk" and dist: "distinct stk"
    using inv by (auto simp: sw_inv_def)
  show ?case
  proof (cases pc)
    case L_start_marking
    note inv' = inv[unfolded L_start_marking]
    show ?thesis
    proof (cases "is_marked h obj")
      case True
      then obtain ob where ob: "h obj = Some ob" "marked ob"
        by (auto simp: is_marked_def split: option.splits)
      have "\<exists>h'. mark_loop L_mark_next obj parent h = Some (Inr h') \<and>
              (\<forall>a. settled h0 h' objs root a) \<and> is_marked h' root"
        using inv_start_marked[OF inv' True] rel_pc[of h stk objs] L_start_marking
        by (intro IH) auto
      then show ?thesis
        using loop_start_marked[of h obj ob parent, OF ob] L_start_marking by simp
    next
      case False
      have same: "h obj = h0 obj" by (rule unmarked_untouched[OF inv False])
      obtain ob where ob: "h obj = Some ob" "class_ok ob"
        using graph_okD[OF g obj_in] same by auto
      have unm: "\<not> marked ob" using False ob(1) by (simp add: is_marked_def)
      consider (leaf) "class_ptr ob = nil_class \<or> class_ptr ob = atom_class"
        | (inner) "class_ptr ob = cons_class \<or> class_ptr ob = function_class"
        using class_cases[of ob] by blast
      then show ?thesis
      proof cases
        case leaf
        let ?h = "h(obj \<mapsto> ob\<lparr>marked := True\<rparr>)"
        have kids: "children_of ob = []" by (rule class_ok_leaf[OF ob(2) leaf])
        have i: "sw_inv h0 objs root L_mark_next obj parent ?h stk"
          by (rule inv_start_leaf[OF inv' ob(1) unm kids])
        have r: "((L_mark_next, ?h, stk), (pc, h, stk)) \<in> sw_rel objs"
          using obj_in False by (intro rel_mark[of obj]) auto
        have "\<exists>h'. mark_loop L_mark_next obj parent ?h = Some (Inr h') \<and>
                (\<forall>a. settled h0 h' objs root a) \<and> is_marked h' root"
          by (rule IH[OF r i])
        then show ?thesis
          using loop_start_leaf[of h obj ob parent, OF ob(1) unm ob(2) leaf] L_start_marking by simp
      next
        case inner
        let ?h = "h(obj \<mapsto> ob\<lparr>marked := True, payload := busy (payload ob) 0 parent\<rparr>)"
        obtain c cs where kids: "children_of ob = c # cs"
          and lp: "mark_loop L_start_marking obj parent h = mark_loop L_start_marking c obj ?h"
          using loop_start_inner[of h obj ob parent, OF ob(1) unm ob(2) inner] by blast
        have i: "sw_inv h0 objs root L_start_marking c obj ?h (obj # stk)"
          by (rule inv_start_inner[OF g inv' ob(1) unm kids])
        have r: "((L_start_marking, ?h, obj # stk), (pc, h, stk)) \<in> sw_rel objs"
          using obj_in False by (intro rel_mark[of obj]) auto
        have "\<exists>h'. mark_loop L_start_marking c obj ?h = Some (Inr h') \<and>
                (\<forall>a. settled h0 h' objs root a) \<and> is_marked h' root"
          by (rule IH[OF r i])
        then show ?thesis
          using lp L_start_marking by simp
      qed
    qed
  next
    case L_mark_next
    note inv' = inv[unfolded L_mark_next]
    have om: "is_marked h obj" using inv' by (simp add: sw_inv_def)
    show ?thesis
    proof (cases stk)
      case Nil
      then have "parent = 0" "obj = root" using par chn by auto
      moreover have "\<forall>a. settled h0 h objs root a"
        using inv Nil by (simp add: sw_inv_def)
      moreover have "mark_loop L_mark_next obj 0 h = Some (Inr h)"
        by (subst mark_loop.simps) simp
      ultimately show ?thesis
        using om L_mark_next by auto
    next
      case (Cons p ps)
      have pp: "parent = p" using par Cons by simp
      have p_in: "p \<in> set objs" using stk_in Cons by simp
      have p0: "p \<noteq> 0" by (rule graph_ok_nonnull[OF g p_in])
      have np: "p \<notin> set ps" using dist Cons by simp
      have "stack_frame h0 h obj p (top_of ps)" using chn Cons by simp
      then obtain ob0 i where fr: "h0 p = Some ob0" "\<not> marked ob0"
        "i < length (children_of ob0)"
        "h p = Some (ob0\<lparr>marked := True, payload := busy (payload ob0) i (top_of ps)\<rparr>)"
        "children_of ob0 ! i = obj" "\<forall>b \<in> set (take i (children_of ob0)). is_marked h b"
        unfolding stack_frame_def by blast
      have ok: "class_ok ob0" using graph_okD[OF g p_in] fr(1) by auto
      note lp = loop_next[of h p ob0 i "top_of ps" obj, OF fr(4) fr(3) fr(5) ok p0]
      note inv'' = inv'[unfolded Cons pp]
      show ?thesis
      proof (cases "Suc i < length (children_of ob0)")
        case True
        let ?h = "h(p \<mapsto> ob0\<lparr>marked := True, payload := busy (payload ob0) (Suc i) (top_of ps)\<rparr>)"
        let ?c = "children_of ob0 ! Suc i"
        have i: "sw_inv h0 objs root L_start_marking ?c p ?h (p # ps)"
          by (rule inv_next_more[OF g inv'' fr(1,2,4,5,6) True])
        have r: "((L_start_marking, ?h, p # ps), (pc, h, stk)) \<in> sw_rel objs"
          unfolding Cons by (rule rel_more[where h = h and p = p, OF fr(4) True np])
        have "\<exists>h'. mark_loop L_start_marking ?c p ?h = Some (Inr h') \<and>
                (\<forall>a. settled h0 h' objs root a) \<and> is_marked h' root"
          by (rule IH[OF r i])
        then show ?thesis
          using lp True L_mark_next pp by simp
      next
        case False
        then have last: "Suc i = length (children_of ob0)" using fr(3) by simp
        let ?h = "h(p \<mapsto> finished ob0)"
        have i: "sw_inv h0 objs root L_mark_next p (top_of ps) ?h ps"
          by (rule inv_next_done[OF inv'' fr(1,2,4,5,6) last])
        have pm: "is_marked h p" using fr(4) by (simp add: is_marked_def)
        have fm: "marked (finished ob0)" by (simp add: finished_def)
        have r: "((L_mark_next, ?h, ps), (pc, h, stk)) \<in> sw_rel objs"
          unfolding Cons by (rule rel_done[where h = h and p = p, OF pm fm np])
        have "\<exists>h'. mark_loop L_mark_next p (top_of ps) ?h = Some (Inr h') \<and>
                (\<forall>a. settled h0 h' objs root a) \<and> is_marked h' root"
          by (rule IH[OF r i])
        then show ?thesis
          using lp False L_mark_next pp by simp
      qed
    qed
  qed
qed

lemma sw_inv_initial:
  assumes "root \<in> set objs"
  shows "sw_inv h objs root L_start_marking root 0 h []"
  using assms by (simp add: sw_inv_def settled_def reachable_def)

lemma mark_total:
  assumes "graph_ok h objs" "root \<in> set objs"
  shows "\<exists>h'. mark root h = Some (Inr h') \<and>
              (\<forall>a. settled h h' objs root a) \<and> is_marked h' root"
  unfolding mark_def
  by (rule mark_loop_total[OF assms(1) sw_inv_initial[OF assms(2)]])

section \<open>The result of \<open>mark\<close> and of the mark phase\<close>

lemma children_finished [simp]: "children_of (finished ob) = children_of ob"
  by (simp add: finished_def children_of_def split: payload.splits)

lemma class_ok_finished [simp]: "class_ok (finished ob) = class_ok ob"
  by (simp add: finished_def class_ok_def split: payload.splits class_ref.splits)

lemma marked_finished [simp]: "marked (finished ob)"
  by (simp add: finished_def)

lemma reachable_in_objs:
  assumes g: "graph_ok h objs" and R: "R \<subseteq> set objs"
  shows "reachable h R \<subseteq> set objs"
proof
  fix b assume "b \<in> reachable h R"
  then obtain r where r: "r \<in> R" and path: "(r, b) \<in> (child_rel h)\<^sup>*"
    by (auto simp: reachable_def)
  from path show "b \<in> set objs"
  proof (induction rule: rtrancl_induct)
    case base
    then show ?case using r R by auto
  next
    case (step y z)
    then obtain ob where "h y = Some ob" "z \<in> set (children_of ob)"
      by (auto simp: child_rel_def)
    then show ?case using graph_okD[OF g step.IH] by auto
  qed
qed

lemma mark_exact:
  assumes g: "graph_ok h objs" and r: "root \<in> set objs" and cl: "marks_closed h objs"
  shows "mark root h = Some (Inr (painted h (reachable h {root})))"
proof -
  obtain h' where run: "mark root h = Some (Inr h')"
    and st: "\<And>a. settled h h' objs root a" and rm: "is_marked h' root"
    using mark_total[OF g r] by blast
  have sub: "reachable h {root} \<subseteq> set objs"
    using reachable_in_objs[OF g] r by simp
  have grow: "is_marked h' a" if "is_marked h a" for a
    using st[of a] that by (auto simp: settled_def is_marked_def)
  have all_marked: "is_marked h' b" if "b \<in> reachable h {root}" for b
  proof -
    from that have "(root, b) \<in> (child_rel h)\<^sup>*" by (simp add: reachable_def)
    then show ?thesis
    proof (induction rule: rtrancl_induct)
      case base
      then show ?case by (rule rm)
    next
      case (step y z)
      then obtain ob where ob: "h y = Some ob" "z \<in> set (children_of ob)"
        by (auto simp: child_rel_def)
      have y_in: "y \<in> set objs"
        using sub step.hyps(1) by (auto simp: reachable_def)
      from st[of y] show ?case
        unfolding settled_def
      proof (elim disjE conjE exE)
        assume "h' y = h y"
        then have "is_marked h y" using step.IH by (simp add: is_marked_def)
        then have "is_marked h z"
          using cl y_in ob by (auto simp: marks_closed_def)
        then show ?thesis by (rule grow)
      next
        fix ob0 assume "h y = Some ob0" "\<forall>b\<in>set (children_of ob0). is_marked h' b"
        then show ?thesis using ob by simp
      qed
    qed
  qed
  have "h' a = painted h (reachable h {root}) a" for a
    using st[of a] unfolding settled_def
  proof (elim disjE conjE exE)
    assume same: "h' a = h a"
    have "is_marked h a" if "a \<in> reachable h {root}"
      using all_marked[OF that] same by (simp add: is_marked_def)
    then show ?thesis using same by (auto simp: painted_def)
  next
    fix ob0 assume "a \<in> reachable h {root}" "h a = Some ob0" "\<not> marked ob0"
      "h' a = Some (finished ob0)"
    then show ?thesis by (simp add: painted_def is_marked_def)
  qed
  then have "h' = painted h (reachable h {root})" by (rule ext)
  then show ?thesis using run by simp
qed

lemma is_marked_painted:
  "is_marked (painted h S) a = (is_marked h a \<or> (a \<in> S \<and> h a \<noteq> None))"
  by (auto simp: painted_def is_marked_def split: option.splits)

lemma child_rel_painted [simp]: "child_rel (painted h S) = child_rel h"
  by (auto simp: child_rel_def painted_def split: if_splits)

lemma reachable_painted [simp]: "reachable (painted h S) R = reachable h R"
  by (simp add: reachable_def)

lemma graph_ok_painted: "graph_ok h objs \<Longrightarrow> graph_ok (painted h S) objs"
  by (auto simp: graph_ok_def painted_def split: option.splits)

lemma painted_painted: "painted (painted h S) T = painted h (S \<union> T)"
  by (rule ext) (auto simp: painted_def is_marked_def split: option.splits)

lemma reachable_Un: "reachable h (A \<union> B) = reachable h A \<union> reachable h B"
  by (auto simp: reachable_def)

lemma reachable_closed:
  "a \<in> reachable h R \<Longrightarrow> h a = Some ob \<Longrightarrow> b \<in> set (children_of ob) \<Longrightarrow> b \<in> reachable h R"
  by (rule reachable_step)

lemma marks_closed_painted:
  assumes g: "graph_ok h objs" and cl: "marks_closed h objs"
  shows "marks_closed (painted h (reachable h R)) objs"
  unfolding marks_closed_def
proof (intro ballI impI)
  fix a assume a: "a \<in> set objs" and m: "is_marked (painted h (reachable h R)) a"
  obtain ob where ob: "h a = Some ob" "set (children_of ob) \<subseteq> set objs"
    using graph_okD[OF g a] by auto
  have kids: "is_marked (painted h (reachable h R)) b" if b: "b \<in> set (children_of ob)" for b
  proof -
    have b_in: "b \<in> set objs" using ob b by auto
    then have hb: "h b \<noteq> None" using graph_okD[OF g b_in] by auto
    show ?thesis
    proof (cases "is_marked h a")
      case True
      then have "is_marked h b" using cl a ob b by (auto simp: marks_closed_def)
      then show ?thesis by (simp add: is_marked_painted)
    next
      case False
      then have "a \<in> reachable h R" using m by (simp add: is_marked_painted)
      then have "b \<in> reachable h R" using reachable_step ob(1) b by blast
      then show ?thesis using hb by (simp add: is_marked_painted)
    qed
  qed
  show "case painted h (reachable h R) a of None \<Rightarrow> True
        | Some ob \<Rightarrow> \<forall>b\<in>set (children_of ob). is_marked (painted h (reachable h R)) b"
    using ob kids by (auto simp: painted_def)
qed

lemma mark_roots_exact:
  assumes "graph_ok h objs" "marks_closed h objs" "cs ` set rs \<subseteq> set objs"
  shows "mark_roots rs cs h = Some (Inr (painted h (reachable h (cs ` set rs))))"
  using assms
proof (induction rs arbitrary: h)
  case Nil
  have "painted h (reachable h {}) = h"
    by (rule ext) (simp add: painted_def reachable_def)
  then show ?case by simp
next
  case (Cons r rs)
  let ?h = "painted h (reachable h {cs r})"
  have r_in: "cs r \<in> set objs" using Cons.prems by simp
  have m: "mark (cs r) h = Some (Inr ?h)"
    by (rule mark_exact[OF Cons.prems(1) r_in Cons.prems(2)])
  have g: "graph_ok ?h objs" by (rule graph_ok_painted[OF Cons.prems(1)])
  have c: "marks_closed ?h objs" by (rule marks_closed_painted[OF Cons.prems(1,2)])
  have "mark_roots rs cs ?h = Some (Inr (painted ?h (reachable ?h (cs ` set rs))))"
    using Cons.prems(3) by (intro Cons.IH[OF g c]) auto
  moreover have "painted ?h (reachable ?h (cs ` set rs)) = painted h (reachable h (cs ` set (r # rs)))"
    using reachable_Un[of h "{cs r}" "cs ` set rs"] by (simp add: painted_painted)
  ultimately show ?case using m by simp
qed

section \<open>Correctness of the sweep\<close>

lemma object_list_unique:
  "object_list h p xs \<Longrightarrow> object_list h p ys \<Longrightarrow> xs = ys"
proof (induction xs arbitrary: p ys)
  case Nil
  then show ?case by (cases ys) auto
next
  case (Cons a as)
  then show ?case by (cases ys) (auto split: option.splits)
qed

lemma object_list_suffix:
  "object_list h p (ys @ a # zs) \<Longrightarrow> object_list h a (a # zs)"
proof (induction ys arbitrary: p)
  case Nil
  then show ?case by simp
next
  case (Cons y ys)
  then obtain ob where "h y = Some ob" "object_list h (next_ptr ob) (ys @ a # zs)"
    by (auto split: option.splits)
  then show ?case by (intro Cons.IH)
qed

lemma object_list_head_notin:
  assumes "object_list h p (a # as)"
  shows "a \<notin> set as"
proof
  assume "a \<in> set as"
  then obtain ys zs where as: "as = ys @ a # zs" by (auto simp: in_set_conv_decomp)
  have "object_list h a (a # zs)"
    using assms object_list_suffix[of h _ ys a zs] as by (auto split: option.splits)
  moreover have "object_list h a (a # as)" using assms by simp
  ultimately have "a # zs = a # as" by (rule object_list_unique)
  then show False using as by simp
qed

lemma object_list_distinct: "object_list h p xs \<Longrightarrow> distinct xs"
proof (induction xs arbitrary: p)
  case Nil
  then show ?case by simp
next
  case (Cons a as)
  have "a \<notin> set as" by (rule object_list_head_notin[OF Cons.prems])
  moreover have "distinct as" using Cons by (auto split: option.splits)
  ultimately show ?case by simp
qed

lemma object_list_nonnull: "object_list h p xs \<Longrightarrow> 0 \<notin> set xs"
  by (induction xs arbitrary: p) (auto split: option.splits)

lemma object_list_allocated: "object_list h p xs \<Longrightarrow> a \<in> set xs \<Longrightarrow> h a \<noteq> None"
  by (induction xs arbitrary: p) (auto split: option.splits)

lemma object_list_cong:
  "(\<And>a. a \<in> set xs \<Longrightarrow> map_option next_ptr (h' a) = map_option next_ptr (h a)) \<Longrightarrow>
     object_list h' p xs = object_list h p xs"
proof (induction xs arbitrary: p)
  case Nil
  then show ?case by simp
next
  case (Cons a as)
  have a: "map_option next_ptr (h' a) = map_option next_ptr (h a)" using Cons.prems by simp
  have rest: "\<And>q. object_list h' q as = object_list h q as"
    using Cons.prems by (intro Cons.IH) simp
  show ?case
  proof (cases "h a")
    case None
    then show ?thesis using a by simp
  next
    case (Some ob)
    then obtain ob' where "h' a = Some ob'" "next_ptr ob' = next_ptr ob" using a by auto
    then show ?thesis using Some rest by simp
  qed
qed

subsection \<open>One iteration of the sweep\<close>

lemma sweep_end: "read_link l s = Some 0 \<Longrightarrow> sweep l s = Some (Inr s)"
  by (subst sweep.simps) simp

lemma sweep_keep:
  assumes "read_link l s = Some a" "a \<noteq> 0" "memory s a = Some ob" "marked ob"
  shows "sweep l s = sweep (Next_field a) (s\<lparr>memory := (memory s)(a \<mapsto> ob\<lparr>marked := False\<rparr>)\<rparr>)"
  using assms by (subst sweep.simps) simp

lemma dispose_ok:
  assumes "h a = Some ob" "class_ok ob" "class_ptr ob \<noteq> nil_class"
  shows "dispose_of (class_ptr ob) a h = Inr (h(a := None))"
  using assms
  by (cases "class_ptr ob")
     (auto simp: class_ok_def cons_dispose_def atom_dispose_def function_dispose_def
        split: payload.splits)

lemma sweep_abort:
  assumes "read_link l s = Some a" "a \<noteq> 0" "memory s a = Some ob" "\<not> marked ob"
    "object_count s \<noteq> INT_MIN" "class_ptr ob = nil_class" "link_ok l (memory s) (a # as)"
  shows "sweep l s = Some (Inl Aborted)"
  using assms
  by (subst sweep.simps)
     (auto simp: write_link_def link_ok_def nil_dispose_def split: link.splits)

lemma sweep_drop_head:
  assumes "heap_head s = a" "a \<noteq> 0" "memory s a = Some ob" "\<not> marked ob"
    "object_count s \<noteq> INT_MIN" "class_ok ob" "class_ptr ob \<noteq> nil_class"
  shows "sweep Heap_head_ptr s =
         sweep Heap_head_ptr
           (s\<lparr>object_count := object_count s - 1, heap_head := next_ptr ob,
               memory := (memory s)(a := None)\<rparr>)"
  using assms dispose_ok[of "memory s" a ob]
  by (subst sweep.simps) (simp add: read_link_def write_link_def)

lemma sweep_drop_next:
  assumes "memory s p = Some pob" "next_ptr pob = a" "p \<noteq> a" "a \<noteq> 0" "memory s a = Some ob"
    "\<not> marked ob" "object_count s \<noteq> INT_MIN" "class_ok ob" "class_ptr ob \<noteq> nil_class"
  shows "sweep (Next_field p) s =
         sweep (Next_field p)
           (s\<lparr>object_count := object_count s - 1,
               memory := (memory s)(p \<mapsto> pob\<lparr>next_ptr := next_ptr ob\<rparr>, a := None)\<rparr>)"
  using assms dispose_ok[of "(memory s)(p \<mapsto> pob\<lparr>next_ptr := next_ptr ob\<rparr>)" a ob]
  by (subst sweep.simps) (simp add: read_link_def write_link_def)

lemma relinked_refl: "relinked ob ob"
  by (simp add: relinked_def)

lemma swept_nil:
  assumes "read_link l s = Some 0" "link_ok l (memory s) []"
  shows "swept l s [] s"
  using assms
  by (auto simp: swept_def link_ok_def relinked_refl)

lemma is_marked_cong: "h' a = h a \<Longrightarrow> is_marked h' a = is_marked h a"
  by (simp add: is_marked_def)

lemma swept_keep:
  assumes rl: "read_link l s = Some a" and a0: "a \<noteq> 0"
    and ob: "memory s a = Some ob" "marked ob"
    and nin: "a \<notin> set as" and lk: "link_ok l (memory s) (a # as)"
    and s1: "s1 = s\<lparr>memory := (memory s)(a \<mapsto> ob\<lparr>marked := False\<rparr>)\<rparr>"
    and sw: "swept (Next_field a) s1 as s'"
  shows "swept l s (a # as) s'"
proof -
  let ?h = "memory s" and ?h1 = "memory s1" and ?h' = "memory s'"
  have am: "is_marked ?h a" using ob by (simp add: is_marked_def)
  have h1: "\<And>x. x \<noteq> a \<Longrightarrow> ?h1 x = ?h x" and h1a: "?h1 a = Some (ob\<lparr>marked := False\<rparr>)"
    using s1 by auto
  have mk: "\<And>x. x \<in> set as \<Longrightarrow> is_marked ?h1 x = is_marked ?h x"
    using h1 nin by (metis is_marked_cong)
  have f1: "filter (is_marked ?h1) as = filter (is_marked ?h) as"
    using mk by (intro filter_cong) auto
  have f2: "filter (\<lambda>x. \<not> is_marked ?h1 x) as = filter (\<lambda>x. \<not> is_marked ?h x) as"
    using mk by (intro filter_cong) auto
  obtain p' where p': "read_link (Next_field a) s' = Some p'"
    "object_list ?h' p' (filter (is_marked ?h) as)"
    using sw f1 by (auto simp: swept_def)
  obtain ob' where ob': "?h' a = Some ob'" "relinked (ob\<lparr>marked := False\<rparr>) ob'"
    using sw h1a by (auto simp: swept_def)
  have np: "next_ptr ob' = p'" using p'(1) ob'(1) by (simp add: read_link_def)
  have keep_other: "\<And>x. x \<notin> set as \<Longrightarrow> x \<noteq> a \<Longrightarrow> ?h' x = ?h x"
    using sw h1 by (auto simp: swept_def)
  have hh: "heap_head s' = heap_head s" using sw s1 by (auto simp: swept_def)
  have rl': "read_link l s' = Some a"
  proof (cases l)
    case Heap_head_ptr
    then show ?thesis using rl hh by (simp add: read_link_def)
  next
    case (Next_field q)
    then have "q \<notin> set as" "q \<noteq> a" using lk by (auto simp: link_ok_def)
    then have "?h' q = ?h q" by (rule keep_other)
    then show ?thesis using rl Next_field by (simp add: read_link_def)
  qed
  have ol: "object_list ?h' a (filter (is_marked ?h) (a # as))"
    using am a0 ob' np p'(2) by simp
  have c1: "\<exists>p'. read_link l s' = Some p' \<and> object_list ?h' p' (filter (is_marked ?h) (a # as))"
    using rl' ol by blast
  have ka: "\<exists>o1 o2. ?h a = Some o1 \<and> ?h' a = Some o2 \<and> kept o1 o2"
    using ob ob' by (auto simp: kept_def relinked_def)
  have c2: "\<forall>x \<in> set (a # as).
         if is_marked ?h x
         then \<exists>o1 o2. ?h x = Some o1 \<and> ?h' x = Some o2 \<and> kept o1 o2
         else ?h' x = None"
  proof
    fix x assume x: "x \<in> set (a # as)"
    show "if is_marked ?h x
         then \<exists>o1 o2. ?h x = Some o1 \<and> ?h' x = Some o2 \<and> kept o1 o2
         else ?h' x = None"
    proof (cases "x = a")
      case True
      then show ?thesis using am ka by simp
    next
      case False
      then have xin: "x \<in> set as" using x by simp
      have "if is_marked ?h1 x
         then \<exists>o1 o2. ?h1 x = Some o1 \<and> ?h' x = Some o2 \<and> kept o1 o2
         else ?h' x = None"
        using sw xin unfolding swept_def by blast
      then show ?thesis using mk[OF xin] h1[OF False] by (auto split: if_splits)
    qed
  qed
  have c3: "\<forall>x. x \<notin> set (a # as) \<longrightarrow> l \<noteq> Next_field x \<longrightarrow> ?h' x = ?h x"
    using keep_other by simp
  have c4: "\<forall>q. l = Next_field q \<longrightarrow>
           (\<exists>o1 o2. ?h q = Some o1 \<and> ?h' q = Some o2 \<and> relinked o1 o2)"
  proof (intro allI impI)
    fix q assume q: "l = Next_field q"
    then have "q \<notin> set as" "q \<noteq> a" "?h q \<noteq> None" using lk by (auto simp: link_ok_def)
    then have "?h' q = ?h q" "?h q \<noteq> None" using keep_other by auto
    then show "\<exists>o1 o2. ?h q = Some o1 \<and> ?h' q = Some o2 \<and> relinked o1 o2"
      by (auto simp: relinked_refl)
  qed
  have c5: "object_count s' =
      object_count s - int (length (filter (\<lambda>x. \<not> is_marked ?h x) (a # as)))"
    using sw s1 f2 am by (simp add: swept_def)
  have c6: "roots_head s' = roots_head s \<and> cells s' = cells s \<and>
      (l \<noteq> Heap_head_ptr \<longrightarrow> heap_head s' = heap_head s)"
    using sw s1 by (simp add: swept_def)
  show ?thesis
    unfolding swept_def using c1 c2 c3 c4 c5 c6 by blast
qed

lemma relinked_trans: "relinked a b \<Longrightarrow> relinked b c \<Longrightarrow> relinked a c"
  by (simp add: relinked_def)

lemma swept_drop:
  assumes ob: "memory s a = Some ob" "\<not> marked ob"
    and nin: "a \<notin> set as" and lk: "link_ok l (memory s) (a # as)"
    and s1: "memory s1 a = None"
      "\<And>x. x \<noteq> a \<Longrightarrow> l \<noteq> Next_field x \<Longrightarrow> memory s1 x = memory s x"
      "\<And>q. l = Next_field q \<Longrightarrow>
         \<exists>o1 o2. memory s q = Some o1 \<and> memory s1 q = Some o2 \<and> relinked o1 o2"
      "object_count s1 = object_count s - 1" "roots_head s1 = roots_head s"
      "cells s1 = cells s" "l \<noteq> Heap_head_ptr \<Longrightarrow> heap_head s1 = heap_head s"
    and sw: "swept l s1 as s'"
  shows "swept l s (a # as) s'"
proof -
  let ?h = "memory s" and ?h1 = "memory s1" and ?h' = "memory s'"
  have am: "\<not> is_marked ?h a" using ob by (simp add: is_marked_def)
  have la: "l \<noteq> Next_field a" using lk by (auto simp: link_ok_def)
  have lx: "\<And>x. x \<in> set as \<Longrightarrow> l \<noteq> Next_field x" using lk by (auto simp: link_ok_def)
  have same: "\<And>x. x \<in> set as \<Longrightarrow> ?h1 x = ?h x"
    using s1(2) lx nin by metis
  have mk: "\<And>x. x \<in> set as \<Longrightarrow> is_marked ?h1 x = is_marked ?h x"
    using same by (metis is_marked_cong)
  have f1: "filter (is_marked ?h1) as = filter (is_marked ?h) as"
    using mk by (intro filter_cong) auto
  have f2: "filter (\<lambda>x. \<not> is_marked ?h1 x) as = filter (\<lambda>x. \<not> is_marked ?h x) as"
    using mk by (intro filter_cong) auto
  have c1: "\<exists>p'. read_link l s' = Some p' \<and> object_list ?h' p' (filter (is_marked ?h) (a # as))"
    using sw f1 am by (simp add: swept_def)
  have a_gone: "?h' a = None"
  proof -
    have "?h' a = ?h1 a" using sw nin la unfolding swept_def by blast
    then show ?thesis using s1(1) by simp
  qed
  have c2: "\<forall>x \<in> set (a # as).
         if is_marked ?h x
         then \<exists>o1 o2. ?h x = Some o1 \<and> ?h' x = Some o2 \<and> kept o1 o2
         else ?h' x = None"
  proof
    fix x assume x: "x \<in> set (a # as)"
    show "if is_marked ?h x
         then \<exists>o1 o2. ?h x = Some o1 \<and> ?h' x = Some o2 \<and> kept o1 o2
         else ?h' x = None"
    proof (cases "x = a")
      case True
      then show ?thesis using am a_gone by simp
    next
      case False
      then have xin: "x \<in> set as" using x by simp
      have "if is_marked ?h1 x
         then \<exists>o1 o2. ?h1 x = Some o1 \<and> ?h' x = Some o2 \<and> kept o1 o2
         else ?h' x = None"
        using sw xin unfolding swept_def by blast
      then show ?thesis using mk[OF xin] same[OF xin] by (auto split: if_splits)
    qed
  qed
  have c3: "\<forall>x. x \<notin> set (a # as) \<longrightarrow> l \<noteq> Next_field x \<longrightarrow> ?h' x = ?h x"
  proof (intro allI impI)
    fix x assume x: "x \<notin> set (a # as)" "l \<noteq> Next_field x"
    then have "?h' x = ?h1 x" using sw unfolding swept_def by auto
    moreover have "?h1 x = ?h x" using s1(2)[of x] x by simp
    ultimately show "?h' x = ?h x" by simp
  qed
  have c4: "\<forall>q. l = Next_field q \<longrightarrow>
           (\<exists>o1 o2. ?h q = Some o1 \<and> ?h' q = Some o2 \<and> relinked o1 o2)"
  proof (intro allI impI)
    fix q assume q: "l = Next_field q"
    obtain o1 o2 where a: "?h q = Some o1" "?h1 q = Some o2" "relinked o1 o2"
      using s1(3)[OF q] by blast
    obtain o2' o3 where b: "?h1 q = Some o2'" "?h' q = Some o3" "relinked o2' o3"
      using sw q unfolding swept_def by blast
    have "relinked o1 o3" using a b relinked_trans by auto
    then show "\<exists>o1 o2. ?h q = Some o1 \<and> ?h' q = Some o2 \<and> relinked o1 o2"
      using a b by blast
  qed
  have c5: "object_count s' =
      object_count s - int (length (filter (\<lambda>x. \<not> is_marked ?h x) (a # as)))"
    using sw s1(4) f2 am by (simp add: swept_def)
  have c6: "roots_head s' = roots_head s \<and> cells s' = cells s \<and>
      (l \<noteq> Heap_head_ptr \<longrightarrow> heap_head s' = heap_head s)"
    using sw s1(5,6,7) by (auto simp: swept_def)
  show ?thesis
    unfolding swept_def using c1 c2 c3 c4 c5 c6 by blast
qed

lemma sweep_correct:
  assumes "read_link l s = Some p" "object_list (memory s) p objs" "link_ok l (memory s) objs"
    "disposable (memory s) objs" "INT_MIN + int (length objs) \<le> object_count s"
  shows "\<exists>s'. sweep l s = Some (Inr s') \<and> swept l s objs s'"
  using assms
proof (induction objs arbitrary: l s p)
  case Nil
  then have "read_link l s = Some 0" by simp
  then show ?case using sweep_end[of l s] swept_nil[of l s] Nil.prems(3) by simp
next
  case (Cons a as)
  let ?h = "memory s"
  have pa: "p = a" and a0: "a \<noteq> 0" using Cons.prems(2) by auto
  obtain ob where ob: "?h a = Some ob" "object_list ?h (next_ptr ob) as"
    using Cons.prems(2) by (auto split: option.splits)
  have nin: "a \<notin> set as" by (rule object_list_head_notin[OF Cons.prems(2)])
  have rl: "read_link l s = Some a" using Cons.prems(1) pa by simp
  have lk: "link_ok l ?h (a # as)" by (rule Cons.prems(3))
  show ?case
  proof (cases "marked ob")
    case True
    define s1 where "s1 = s\<lparr>memory := ?h(a \<mapsto> ob\<lparr>marked := False\<rparr>)\<rparr>"
    have h1: "\<And>x. x \<in> set as \<Longrightarrow> memory s1 x = ?h x" using nin by (auto simp: s1_def)
    have r1: "read_link (Next_field a) s1 = Some (next_ptr ob)"
      by (simp add: read_link_def s1_def)
    have o1: "object_list (memory s1) (next_ptr ob) as"
      using ob(2) h1 object_list_cong[of as "memory s1" ?h "next_ptr ob"] by simp
    have l1: "link_ok (Next_field a) (memory s1) as"
      using nin by (simp add: link_ok_def s1_def)
    have d1: "disposable (memory s1) as"
      using Cons.prems(4) h1 unfolding disposable_def
      by (metis is_marked_cong list.set_intros(2))
    have c1: "INT_MIN + int (length as) \<le> object_count s1"
      using Cons.prems(5) by (simp add: s1_def)
    obtain s' where s': "sweep (Next_field a) s1 = Some (Inr s')" "swept (Next_field a) s1 as s'"
      using Cons.IH[OF r1 o1 l1 d1 c1] by blast
    have "swept l s (a # as) s'"
      by (rule swept_keep[OF rl a0 ob(1) True nin lk s1_def s'(2)])
    moreover have "sweep l s = Some (Inr s')"
      using sweep_keep[OF rl a0 ob(1) True] s'(1) by (simp add: s1_def)
    ultimately show ?thesis by blast
  next
    case False
    have am: "\<not> is_marked ?h a" using ob False by (simp add: is_marked_def)
    have cls: "class_ok ob" "class_ptr ob \<noteq> nil_class"
      using Cons.prems(4) am ob by (auto simp: disposable_def)
    have cnt: "object_count s \<noteq> INT_MIN" using Cons.prems(5) by simp
    show ?thesis
    proof (cases l)
      case Heap_head_ptr
      define s1 where "s1 = s\<lparr>object_count := object_count s - 1, heap_head := next_ptr ob,
               memory := ?h(a := None)\<rparr>"
      have hh: "heap_head s = a" using rl Heap_head_ptr by (simp add: read_link_def)
      have step: "sweep l s = sweep l s1"
        unfolding Heap_head_ptr s1_def
        by (rule sweep_drop_head[OF hh a0 ob(1) False cnt cls])
      have h1: "\<And>x. x \<in> set as \<Longrightarrow> memory s1 x = ?h x" using nin by (auto simp: s1_def)
      have r1: "read_link l s1 = Some (next_ptr ob)"
        by (simp add: read_link_def s1_def Heap_head_ptr)
      have o1: "object_list (memory s1) (next_ptr ob) as"
        using ob(2) h1 object_list_cong[of as "memory s1" ?h "next_ptr ob"] by simp
      have l1: "link_ok l (memory s1) as" by (simp add: link_ok_def Heap_head_ptr)
      have d1: "disposable (memory s1) as"
        using Cons.prems(4) h1 unfolding disposable_def
        by (metis is_marked_cong list.set_intros(2))
      have c1: "INT_MIN + int (length as) \<le> object_count s1"
        using Cons.prems(5) by (simp add: s1_def)
      obtain s' where s': "sweep l s1 = Some (Inr s')" "swept l s1 as s'"
        using Cons.IH[OF r1 o1 l1 d1 c1] by blast
      have "swept l s (a # as) s'"
      proof (rule swept_drop[OF ob(1) False nin lk _ _ _ _ _ _ _ s'(2)])
        show "memory s1 a = None" by (simp add: s1_def)
        show "\<And>x. x \<noteq> a \<Longrightarrow> l \<noteq> Next_field x \<Longrightarrow> memory s1 x = ?h x" by (simp add: s1_def)
        show "\<And>q. l = Next_field q \<Longrightarrow>
           \<exists>o1 o2. ?h q = Some o1 \<and> memory s1 q = Some o2 \<and> relinked o1 o2"
          using Heap_head_ptr by simp
        show "object_count s1 = object_count s - 1" by (simp add: s1_def)
        show "roots_head s1 = roots_head s" by (simp add: s1_def)
        show "cells s1 = cells s" by (simp add: s1_def)
        show "l \<noteq> Heap_head_ptr \<Longrightarrow> heap_head s1 = heap_head s" using Heap_head_ptr by simp
      qed
      then show ?thesis using step s'(1) by simp
    next
      case (Next_field q)
      have qn: "q \<noteq> a" "q \<notin> set as" using lk Next_field by (auto simp: link_ok_def)
      obtain pob where pob: "?h q = Some pob" "next_ptr pob = a"
        using rl Next_field by (auto simp: read_link_def split: option.splits)
      define s1 where "s1 = s\<lparr>object_count := object_count s - 1,
               memory := ?h(q \<mapsto> pob\<lparr>next_ptr := next_ptr ob\<rparr>, a := None)\<rparr>"
      have step: "sweep l s = sweep l s1"
        unfolding Next_field s1_def
        by (rule sweep_drop_next[OF pob qn(1) a0 ob(1) False cnt cls])
      have h1: "\<And>x. x \<in> set as \<Longrightarrow> memory s1 x = ?h x" using nin qn by (auto simp: s1_def)
      have r1: "read_link l s1 = Some (next_ptr ob)"
        using qn by (simp add: read_link_def s1_def Next_field)
      have o1: "object_list (memory s1) (next_ptr ob) as"
        using ob(2) h1 object_list_cong[of as "memory s1" ?h "next_ptr ob"] by simp
      have l1: "link_ok l (memory s1) as"
        using qn by (simp add: link_ok_def Next_field s1_def)
      have d1: "disposable (memory s1) as"
        using Cons.prems(4) h1 unfolding disposable_def
        by (metis is_marked_cong list.set_intros(2))
      have c1: "INT_MIN + int (length as) \<le> object_count s1"
        using Cons.prems(5) by (simp add: s1_def)
      obtain s' where s': "sweep l s1 = Some (Inr s')" "swept l s1 as s'"
        using Cons.IH[OF r1 o1 l1 d1 c1] by blast
      have "swept l s (a # as) s'"
      proof (rule swept_drop[OF ob(1) False nin lk _ _ _ _ _ _ _ s'(2)])
        show "memory s1 a = None" by (simp add: s1_def)
        show "\<And>x. x \<noteq> a \<Longrightarrow> l \<noteq> Next_field x \<Longrightarrow> memory s1 x = ?h x"
          using Next_field by (simp add: s1_def)
        show "\<And>q. l = Next_field q \<Longrightarrow>
           \<exists>o1 o2. ?h q = Some o1 \<and> memory s1 q = Some o2 \<and> relinked o1 o2"
          using Next_field pob qn by (simp add: s1_def relinked_def)
        show "object_count s1 = object_count s - 1" by (simp add: s1_def)
        show "roots_head s1 = roots_head s" by (simp add: s1_def)
        show "cells s1 = cells s" by (simp add: s1_def)
        show "l \<noteq> Heap_head_ptr \<Longrightarrow> heap_head s1 = heap_head s" by (simp add: s1_def)
      qed
      then show ?thesis using step s'(1) by simp
    qed
  qed
qed

lemma sweep_aborts:
  assumes "read_link l s = Some p" "object_list (memory s) p objs" "link_ok l (memory s) objs"
    "\<forall>a \<in> set objs. case memory s a of None \<Rightarrow> False | Some ob \<Rightarrow> class_ok ob"
    "INT_MIN + int (length objs) \<le> object_count s"
    "\<exists>a \<in> set objs. dead_nil (memory s) a"
  shows "sweep l s = Some (Inl Aborted)"
  using assms
proof (induction objs arbitrary: l s p)
  case Nil
  then show ?case by simp
next
  case (Cons a as)
  let ?h = "memory s"
  have pa: "p = a" and a0: "a \<noteq> 0" using Cons.prems(2) by auto
  obtain ob where ob: "?h a = Some ob" "object_list ?h (next_ptr ob) as"
    using Cons.prems(2) by (auto split: option.splits)
  have nin: "a \<notin> set as" by (rule object_list_head_notin[OF Cons.prems(2)])
  have rl: "read_link l s = Some a" using Cons.prems(1) pa by simp
  have lk: "link_ok l ?h (a # as)" by (rule Cons.prems(3))
  have ok: "class_ok ob" using Cons.prems(4) ob(1) by auto
  have cnt: "object_count s \<noteq> INT_MIN" using Cons.prems(5) by simp
  have rest: "sweep l1 s1 = Some (Inl Aborted)"
    if "read_link l1 s1 = Some (next_ptr ob)" "\<And>x. x \<in> set as \<Longrightarrow> memory s1 x = ?h x"
      "link_ok l1 (memory s1) as" "object_count s - 1 \<le> object_count s1"
      "\<exists>x \<in> set as. dead_nil ?h x" for l1 s1
  proof (rule Cons.IH[OF that(1)])
    show "object_list (memory s1) (next_ptr ob) as"
      using ob(2) that(2) object_list_cong[of as "memory s1" ?h "next_ptr ob"] by simp
    show "link_ok l1 (memory s1) as" by (rule that(3))
    show "\<forall>x\<in>set as. case memory s1 x of None \<Rightarrow> False | Some ob \<Rightarrow> class_ok ob"
      using Cons.prems(4) that(2) by simp
    show "INT_MIN + int (length as) \<le> object_count s1"
      using Cons.prems(5) that(4) by simp
    show "\<exists>x\<in>set as. dead_nil (memory s1) x"
      using that(5) that(2) by (auto simp: dead_nil_def is_marked_def)
  qed
  show ?case
  proof (cases "marked ob")
    case True
    define s1 where "s1 = s\<lparr>memory := ?h(a \<mapsto> ob\<lparr>marked := False\<rparr>)\<rparr>"
    have dn: "\<exists>x \<in> set as. dead_nil ?h x"
      using Cons.prems(6) ob(1) True by (auto simp: dead_nil_def is_marked_def)
    have "sweep (Next_field a) s1 = Some (Inl Aborted)"
    proof (rule rest[OF _ _ _ _ dn])
      show "read_link (Next_field a) s1 = Some (next_ptr ob)"
        by (simp add: read_link_def s1_def)
      show "\<And>x. x \<in> set as \<Longrightarrow> memory s1 x = ?h x" using nin by (auto simp: s1_def)
      show "link_ok (Next_field a) (memory s1) as" using nin by (simp add: link_ok_def s1_def)
      show "object_count s - 1 \<le> object_count s1" by (simp add: s1_def)
    qed
    then show ?thesis
      using sweep_keep[OF rl a0 ob(1) True] by (simp add: s1_def)
  next
    case False
    show ?thesis
    proof (cases "class_ptr ob = nil_class")
      case True
      show ?thesis by (rule sweep_abort[OF rl a0 ob(1) False cnt True lk])
    next
      case notnil: False
      have dn: "\<exists>x \<in> set as. dead_nil ?h x"
        using Cons.prems(6) ob(1) notnil by (auto simp: dead_nil_def)
      show ?thesis
      proof (cases l)
        case Heap_head_ptr
        define s1 where "s1 = s\<lparr>object_count := object_count s - 1, heap_head := next_ptr ob,
               memory := ?h(a := None)\<rparr>"
        have hh: "heap_head s = a" using rl Heap_head_ptr by (simp add: read_link_def)
        have step: "sweep l s = sweep l s1"
          unfolding Heap_head_ptr s1_def
          by (rule sweep_drop_head[OF hh a0 ob(1) False cnt ok notnil])
        have "sweep l s1 = Some (Inl Aborted)"
        proof (rule rest[OF _ _ _ _ dn])
          show "read_link l s1 = Some (next_ptr ob)"
            by (simp add: read_link_def s1_def Heap_head_ptr)
          show "\<And>x. x \<in> set as \<Longrightarrow> memory s1 x = ?h x" using nin by (auto simp: s1_def)
          show "link_ok l (memory s1) as" by (simp add: link_ok_def Heap_head_ptr)
          show "object_count s - 1 \<le> object_count s1" by (simp add: s1_def)
        qed
        then show ?thesis using step by simp
      next
        case (Next_field q)
        have qn: "q \<noteq> a" "q \<notin> set as" using lk Next_field by (auto simp: link_ok_def)
        obtain pob where pob: "?h q = Some pob" "next_ptr pob = a"
          using rl Next_field by (auto simp: read_link_def split: option.splits)
        define s1 where "s1 = s\<lparr>object_count := object_count s - 1,
               memory := ?h(q \<mapsto> pob\<lparr>next_ptr := next_ptr ob\<rparr>, a := None)\<rparr>"
        have step: "sweep l s = sweep l s1"
          unfolding Next_field s1_def
          by (rule sweep_drop_next[OF pob qn(1) a0 ob(1) False cnt ok notnil])
        have "sweep l s1 = Some (Inl Aborted)"
        proof (rule rest[OF _ _ _ _ dn])
          show "read_link l s1 = Some (next_ptr ob)"
            using qn by (simp add: read_link_def s1_def Next_field)
          show "\<And>x. x \<in> set as \<Longrightarrow> memory s1 x = ?h x" using nin qn by (auto simp: s1_def)
          show "link_ok l (memory s1) as" using qn by (simp add: link_ok_def Next_field s1_def)
          show "object_count s - 1 \<le> object_count s1" by (simp add: s1_def)
        qed
        then show ?thesis using step by simp
      qed
    qed
  qed
qed

section \<open>Correctness of the collector\<close>

lemma kept_children: "kept ob ob' \<Longrightarrow> children_of ob' = children_of ob"
  by (simp add: kept_def children_of_def)

lemma class_ok_cong:
  assumes "class_ptr a = class_ptr b" "payload a = payload b"
  shows "class_ok a = class_ok b"
  unfolding class_ok_def assms by (rule refl)

lemma kept_class_ok: "kept ob ob' \<Longrightarrow> class_ok ob' = class_ok ob"
  by (rule class_ok_cong) (simp_all add: kept_def)

lemma painted_next: "map_option next_ptr (painted h S a) = map_option next_ptr (h a)"
  by (cases "h a") (auto simp: painted_def finished_def)

lemma object_list_painted: "object_list (painted h S) p xs = object_list h p xs"
  by (rule object_list_cong) (rule painted_next)

lemma heap_inv_marks_closed: "heap_inv s objs \<Longrightarrow> marks_closed (memory s) objs"
  by (simp add: heap_inv_def marks_closed_def)

lemma heap_inv_roots: "heap_inv s objs \<Longrightarrow> root_values s \<subseteq> set objs"
  by (auto simp: heap_inv_def root_values_def)

lemma live_in_objs:
  assumes "heap_inv s objs"
  shows "live s \<subseteq> set objs"
  unfolding live_def
proof (rule reachable_in_objs)
  show "graph_ok (memory s) objs" using assms by (simp add: heap_inv_def)
  show "root_values s \<subseteq> set objs" by (rule heap_inv_roots[OF assms])
qed

lemma mark_phase:
  assumes "heap_inv s objs"
  shows "mark_roots (roots_head s) (cells s) (memory s) = Some (Inr (painted (memory s) (live s)))"
  using mark_roots_exact[of "memory s" objs "cells s" "roots_head s"]
    heap_inv_marks_closed[OF assms] heap_inv_roots[OF assms] assms
  by (simp add: heap_inv_def live_def root_values_def)

lemma marked_after_mark_phase:
  assumes "heap_inv s objs" "a \<in> set objs"
  shows "is_marked (painted (memory s) (live s)) a = (a \<in> live s)"
proof -
  have "memory s a \<noteq> None" "\<not> is_marked (memory s) a"
    using assms graph_okD[of "memory s" objs a] by (auto simp: heap_inv_def)
  then show ?thesis by (simp add: is_marked_painted)
qed

lemma gc_correct:
  assumes inv: "heap_inv s objs"
    and nodead: "\<forall>a \<in> set objs. a \<in> live s \<or> \<not> dead_nil (memory s) a"
  shows "\<exists>s'. gc s = Some (Inr s') \<and> collected s objs s'"
proof -
  let ?h = "memory s" and ?R = "live s"
  let ?h1 = "painted ?h ?R"
  let ?s1 = "s\<lparr>memory := ?h1\<rparr>"
  let ?K = "filter (\<lambda>a. a \<in> ?R) objs"
  have g: "graph_ok ?h objs" and unm: "\<And>a. a \<in> set objs \<Longrightarrow> \<not> is_marked ?h a"
    and ol: "object_list ?h (heap_head s) objs" and cnt: "object_count s = int (length objs)"
    and cap: "object_count s \<le> 10000"
    using inv by (auto simp: heap_inv_def)
  have Rsub: "?R \<subseteq> set objs" by (rule live_in_objs[OF inv])
  have mk: "\<And>a. a \<in> set objs \<Longrightarrow> is_marked ?h1 a = (a \<in> ?R)"
    by (rule marked_after_mark_phase[OF inv])
  have gc1: "gc s = sweep Heap_head_ptr ?s1"
    unfolding gc_def using mark_phase[OF inv] by simp
  have disp: "disposable (memory ?s1) objs"
    unfolding disposable_def
  proof (intro ballI impI)
    fix a assume a: "a \<in> set objs" and "\<not> is_marked (memory ?s1) a"
    then have nl: "a \<notin> ?R" using mk by simp
    then have same: "?h1 a = ?h a" by (simp add: painted_def)
    obtain ob where ob: "?h a = Some ob" "class_ok ob" using graph_okD[OF g a] by auto
    have "class_ptr ob \<noteq> nil_class"
      using nodead a nl ob unm[OF a] by (auto simp: dead_nil_def)
    then show "case memory ?s1 a of None \<Rightarrow> False
               | Some ob \<Rightarrow> class_ok ob \<and> class_ptr ob \<noteq> nil_class"
      using same ob by simp
  qed
  obtain s' where run: "sweep Heap_head_ptr ?s1 = Some (Inr s')"
    and sw: "swept Heap_head_ptr ?s1 objs s'"
  proof -
    have "\<exists>s'. sweep Heap_head_ptr ?s1 = Some (Inr s') \<and> swept Heap_head_ptr ?s1 objs s'"
    proof (rule sweep_correct)
      show "read_link Heap_head_ptr ?s1 = Some (heap_head s)" by (simp add: read_link_def)
      show "object_list (memory ?s1) (heap_head s) objs" using ol by (simp add: object_list_painted)
      show "link_ok Heap_head_ptr (memory ?s1) objs" by (simp add: link_ok_def)
      show "disposable (memory ?s1) objs" by (rule disp)
      show "INT_MIN + int (length objs) \<le> object_count ?s1" using cnt by (simp add: INT_MIN_def)
    qed
    then show ?thesis using that by blast
  qed
  have fK: "filter (is_marked ?h1) objs = ?K"
    using mk by (intro filter_cong) auto
  have fD: "filter (\<lambda>a. \<not> is_marked ?h1 a) objs = filter (\<lambda>a. a \<notin> ?R) objs"
    using mk by (intro filter_cong) auto
  have olK: "object_list (memory s') (heap_head s') ?K"
    using sw fK by (auto simp: swept_def read_link_def)
  have keptK: "\<exists>ob ob'. ?h a = Some ob \<and> memory s' a = Some ob' \<and> \<not> marked ob' \<and>
           class_ptr ob' = class_ptr ob \<and> children_of ob' = children_of ob \<and>
           class_ok ob' = class_ok ob" if a: "a \<in> ?R" for a
  proof -
    have ain: "a \<in> set objs" using Rsub a by auto
    obtain ob where ob: "?h a = Some ob" using graph_okD[OF g ain] by auto
    have h1a: "?h1 a = Some (finished ob)" using a ob unm[OF ain] by (simp add: painted_def)
    have "is_marked (memory ?s1) a" using mk[OF ain] a by simp
    then obtain o1 ob' where k: "memory ?s1 a = Some o1" "memory s' a = Some ob'" "kept o1 ob'"
      using sw ain unfolding swept_def by (metis (no_types, lifting))
    have o1: "o1 = finished ob" using k(1) h1a by simp
    have "class_ptr ob' = class_ptr ob"
      using k(3) o1 by (simp add: kept_def finished_def)
    moreover have "children_of ob' = children_of ob"
      using kept_children[OF k(3)] o1 by simp
    moreover have "class_ok ob' = class_ok ob"
      using kept_class_ok[OF k(3)] o1 by simp
    moreover have "\<not> marked ob'" using k(3) by (simp add: kept_def)
    ultimately show ?thesis using ob k(2) by simp
  qed
  have goneD: "memory s' a = None" if "a \<in> set objs" "a \<notin> ?R" for a
  proof -
    have "\<not> is_marked (memory ?s1) a" using mk that by simp
    then show ?thesis using sw that(1) unfolding swept_def by (metis (no_types, lifting))
  qed
  have others: "memory s' a = ?h a" if "a \<notin> set objs" for a
  proof -
    have "memory s' a = memory ?s1 a" using sw that unfolding swept_def by simp
    moreover have "a \<notin> ?R" using that Rsub by auto
    ultimately show ?thesis by (simp add: painted_def)
  qed
  have rts: "roots_head s' = roots_head s" "cells s' = cells s"
    using sw by (auto simp: swept_def)
  have cnt': "object_count s' = int (length ?K)"
  proof -
    have "object_count s' = int (length objs) - int (length (filter (\<lambda>a. a \<notin> ?R) objs))"
      using sw fD cnt by (simp add: swept_def)
    moreover have "length ?K + length (filter (\<lambda>a. a \<notin> ?R) objs) = length objs"
      using sum_length_filter_compl[of "\<lambda>a. a \<in> ?R" objs] by simp
    ultimately show ?thesis by linarith
  qed
  have gK: "graph_ok (memory s') ?K"
    unfolding graph_ok_def
  proof (intro conjI ballI)
    show "0 \<notin> set ?K" using g by (auto simp: graph_ok_def)
  next
    fix a assume "a \<in> set ?K"
    then have aR: "a \<in> ?R" and ain: "a \<in> set objs" by auto
    obtain ob ob' where k: "?h a = Some ob" "memory s' a = Some ob'"
      "children_of ob' = children_of ob" "class_ok ob' = class_ok ob"
      using keptK[OF aR] by blast
    have ok: "class_ok ob" "set (children_of ob) \<subseteq> set objs"
      using graph_okD[OF g ain] k(1) by auto
    have "set (children_of ob) \<subseteq> ?R"
      using aR k(1) reachable_step[of a ?h "root_values s"] by (auto simp: live_def)
    then show "case memory s' a of None \<Rightarrow> False
          | Some ob \<Rightarrow> class_ok ob \<and> set (children_of ob) \<subseteq> set ?K"
      using k ok by auto
  qed
  have unmK: "\<forall>a \<in> set ?K. \<not> is_marked (memory s') a"
  proof
    fix a assume "a \<in> set ?K"
    then have "a \<in> ?R" by simp
    then obtain ob' where "memory s' a = Some ob'" "\<not> marked ob'"
      using keptK by blast
    then show "\<not> is_marked (memory s') a" by (simp add: is_marked_def)
  qed
  have rootsK: "\<forall>r \<in> set (roots_head s'). cells s' r \<in> set ?K"
  proof
    fix r assume "r \<in> set (roots_head s')"
    then have r: "r \<in> set (roots_head s)" using rts by simp
    then have "cells s r \<in> ?R"
      by (auto simp: live_def reachable_def root_values_def)
    moreover have "cells s r \<in> set objs" using inv r by (simp add: heap_inv_def)
    ultimately show "cells s' r \<in> set ?K" using rts by simp
  qed
  have capK: "object_count s' \<le> 10000"
    using cnt' cnt cap length_filter_le[of "\<lambda>a. a \<in> ?R" objs] by linarith
  have "heap_inv s' ?K"
    unfolding heap_inv_def using olK gK unmK rootsK cnt' capK by blast
  moreover have "\<forall>a \<in> ?R. \<exists>ob ob'. ?h a = Some ob \<and> memory s' a = Some ob' \<and>
           class_ptr ob' = class_ptr ob \<and> children_of ob' = children_of ob"
    using keptK by blast
  ultimately have "collected s objs s'"
    unfolding collected_def using rts goneD others by blast
  then show ?thesis using gc1 run by simp
qed

lemma gc_aborts:
  assumes inv: "heap_inv s objs"
    and dead: "\<exists>a \<in> set objs. a \<notin> live s \<and> dead_nil (memory s) a"
  shows "gc s = Some (Inl Aborted)"
proof -
  let ?h = "memory s" and ?R = "live s"
  let ?h1 = "painted ?h ?R"
  let ?s1 = "s\<lparr>memory := ?h1\<rparr>"
  have g: "graph_ok ?h objs"
    and ol: "object_list ?h (heap_head s) objs" and cnt: "object_count s = int (length objs)"
    using inv by (auto simp: heap_inv_def)
  have gc1: "gc s = sweep Heap_head_ptr ?s1"
    unfolding gc_def using mark_phase[OF inv] by simp
  have "sweep Heap_head_ptr ?s1 = Some (Inl Aborted)"
  proof (rule sweep_aborts)
    show "read_link Heap_head_ptr ?s1 = Some (heap_head s)" by (simp add: read_link_def)
    show "object_list (memory ?s1) (heap_head s) objs" using ol by (simp add: object_list_painted)
    show "link_ok Heap_head_ptr (memory ?s1) objs" by (simp add: link_ok_def)
    show "\<forall>a\<in>set objs. case memory ?s1 a of None \<Rightarrow> False | Some ob \<Rightarrow> class_ok ob"
      using graph_ok_painted[OF g, of ?R] by (auto simp: graph_ok_def split: option.splits)
    show "INT_MIN + int (length objs) \<le> object_count ?s1" using cnt by (simp add: INT_MIN_def)
    show "\<exists>a\<in>set objs. dead_nil (memory ?s1) a"
    proof -
      obtain a where a: "a \<in> set objs" "a \<notin> ?R" "dead_nil ?h a" using dead by blast
      have "?h1 a = ?h a" using a(2) by (simp add: painted_def)
      then have "dead_nil ?h1 a" using a(3) by (simp add: dead_nil_def is_marked_def)
      then show ?thesis using a(1) by auto
    qed
  qed
  then show ?thesis using gc1 by simp
qed

lemma reachable_cong:
  assumes same: "\<And>a. a \<in> reachable h R \<Longrightarrow>
      \<exists>ob ob'. h a = Some ob \<and> h' a = Some ob' \<and> children_of ob' = children_of ob"
  shows "reachable h' R = reachable h R"
proof (intro equalityI subsetI)
  fix b assume "b \<in> reachable h' R"
  then obtain r where r: "r \<in> R" and path: "(r, b) \<in> (child_rel h')\<^sup>*"
    by (auto simp: reachable_def)
  from path show "b \<in> reachable h R"
  proof (induction rule: rtrancl_induct)
    case base
    then show ?case using r by (auto simp: reachable_def)
  next
    case (step y z)
    obtain ob' where ob': "h' y = Some ob'" "z \<in> set (children_of ob')"
      using step.hyps(2) by (auto simp: child_rel_def)
    obtain ob where "h y = Some ob" "children_of ob' = children_of ob"
      using same[OF step.IH] ob'(1) by auto
    then show ?case using reachable_step[OF step.IH] ob'(2) by auto
  qed
next
  fix b assume "b \<in> reachable h R"
  then obtain r where r: "r \<in> R" and path: "(r, b) \<in> (child_rel h)\<^sup>*"
    by (auto simp: reachable_def)
  from path show "b \<in> reachable h' R"
  proof (induction rule: rtrancl_induct)
    case base
    then show ?case using r by (auto simp: reachable_def)
  next
    case (step y z)
    have yr: "y \<in> reachable h R" using r step.hyps(1) by (auto simp: reachable_def)
    obtain ob where ob: "h y = Some ob" "z \<in> set (children_of ob)"
      using step.hyps(2) by (auto simp: child_rel_def)
    obtain ob' where "h' y = Some ob'" "children_of ob' = children_of ob"
      using same[OF yr] ob(1) by auto
    then show ?case using reachable_step[OF step.IH] ob(2) by auto
  qed
qed

lemma collected_live:
  assumes "collected s objs s'"
  shows "live s' = live s"
proof -
  have rv: "root_values s' = root_values s"
    using assms by (simp add: collected_def root_values_def)
  have "reachable (memory s') (root_values s) = reachable (memory s) (root_values s)"
  proof (rule reachable_cong)
    fix a assume "a \<in> reachable (memory s) (root_values s)"
    then have "a \<in> live s" by (simp add: live_def)
    then show "\<exists>ob ob'. memory s a = Some ob \<and> memory s' a = Some ob' \<and>
                 children_of ob' = children_of ob"
      using assms unfolding collected_def by blast
  qed
  then show ?thesis using rv by (simp add: live_def)
qed

lemma collected_heap_set:
  assumes "heap_inv s objs"
  shows "set (filter (\<lambda>a. a \<in> live s) objs) = live s"
  using live_in_objs[OF assms] by auto

lemma gc_total:
  assumes "heap_inv s objs"
  shows "(\<exists>s'. gc s = Some (Inr s') \<and> collected s objs s') \<or>
         (gc s = Some (Inl Aborted) \<and> (\<exists>a \<in> set objs. a \<notin> live s \<and> dead_nil (memory s) a))"
proof (cases "\<exists>a \<in> set objs. a \<notin> live s \<and> dead_nil (memory s) a")
  case True
  then show ?thesis using gc_aborts[OF assms] by simp
next
  case False
  then have "\<forall>a \<in> set objs. a \<in> live s \<or> \<not> dead_nil (memory s) a" by blast
  then show ?thesis using gc_correct[OF assms] by simp
qed

lemma gc_again:
  assumes inv: "heap_inv s objs" and col: "collected s objs s1"
  shows "\<exists>s2. gc s1 = Some (Inr s2) \<and> collected s1 (filter (\<lambda>a. a \<in> live s) objs) s2 \<and>
              heap_inv s2 (filter (\<lambda>a. a \<in> live s) objs)"
proof -
  let ?K = "filter (\<lambda>a. a \<in> live s) objs"
  have inv1: "heap_inv s1 ?K" using col by (simp add: collected_def)
  have l1: "live s1 = live s" by (rule collected_live[OF col])
  have "\<forall>a \<in> set ?K. a \<in> live s1 \<or> \<not> dead_nil (memory s1) a" using l1 by simp
  then obtain s2 where s2: "gc s1 = Some (Inr s2)" "collected s1 ?K s2"
    using gc_correct[OF inv1] by blast
  have "filter (\<lambda>a. a \<in> live s1) ?K = ?K" using l1 by simp
  then have "heap_inv s2 ?K" using s2(2) by (simp add: collected_def)
  then show ?thesis using s2 by blast
qed

section \<open>The entry points keep the heap invariant\<close>

lemma graph_ok_cong:
  assumes "graph_ok h objs" "\<And>a. a \<in> set objs \<Longrightarrow> h' a = h a"
  shows "graph_ok h' objs"
  unfolding graph_ok_def
proof (intro conjI ballI)
  show "0 \<notin> set objs" using assms(1) by (simp add: graph_ok_def)
next
  fix a assume a: "a \<in> set objs"
  have "case h a of None \<Rightarrow> False | Some ob \<Rightarrow> class_ok ob \<and> set (children_of ob) \<subseteq> set objs"
    using assms(1) a unfolding graph_ok_def by blast
  then show "case h' a of None \<Rightarrow> False | Some ob \<Rightarrow> class_ok ob \<and> set (children_of ob) \<subseteq> set objs"
    unfolding assms(2)[OF a] .
qed

lemma heap_inv_allocated: "heap_inv s objs \<Longrightarrow> a \<in> set objs \<Longrightarrow> memory s a \<noteq> None"
  using object_list_allocated[of "memory s" "heap_head s" objs a] by (simp add: heap_inv_def)

text \<open>Changes outside the heap list, and to cells that still point into it, keep the invariant.\<close>

lemma heap_inv_frame:
  assumes inv: "heap_inv s objs"
    and mem: "\<And>a. a \<in> set objs \<Longrightarrow> memory s' a = memory s a"
    and rest: "heap_head s' = heap_head s" "object_count s' = object_count s"
    and roots: "\<And>r. r \<in> set (roots_head s') \<Longrightarrow> cells s' r \<in> set objs"
  shows "heap_inv s' objs"
proof -
  have i: "object_list (memory s) (heap_head s) objs" "graph_ok (memory s) objs"
    "\<forall>a \<in> set objs. \<not> is_marked (memory s) a"
    "object_count s = int (length objs)" "object_count s \<le> 10000"
    using inv unfolding heap_inv_def by blast+
  have "object_list (memory s') (heap_head s) objs = object_list (memory s) (heap_head s) objs"
    by (rule object_list_cong) (simp only: mem)
  then have a: "object_list (memory s') (heap_head s') objs"
    using i(1) rest(1) by simp
  have b: "graph_ok (memory s') objs"
    by (rule graph_ok_cong[OF i(2)]) (rule mem)
  have c: "\<forall>a \<in> set objs. \<not> is_marked (memory s') a"
  proof
    fix a assume a: "a \<in> set objs"
    have "is_marked (memory s') a = is_marked (memory s) a"
      by (rule is_marked_cong) (rule mem[OF a])
    then show "\<not> is_marked (memory s') a" using i(3) a by simp
  qed
  have d: "\<forall>r \<in> set (roots_head s'). cells s' r \<in> set objs" using roots by blast
  show ?thesis
    unfolding heap_inv_def using a b c d i(4,5) rest(2) by simp
qed

lemma heap_inv_rootsD: "heap_inv s objs \<Longrightarrow> r \<in> set (roots_head s) \<Longrightarrow> cells s r \<in> set objs"
  by (simp add: heap_inv_def)

lemma heap_inv_push_root:
  assumes "heap_inv s objs" "cells s r \<in> set objs"
  shows "heap_inv (push_root r s) objs"
proof (rule heap_inv_frame[OF assms(1)])
  fix q assume "q \<in> set (roots_head (push_root r s))"
  then have "q = r \<or> q \<in> set (roots_head s)" by (simp add: push_root_def stack_push_def)
  then show "cells (push_root r s) q \<in> set objs"
    using assms(2) heap_inv_rootsD[OF assms(1)] by (auto simp: push_root_def)
qed (simp_all add: push_root_def)

lemma heap_inv_set_root:
  assumes "heap_inv s objs" "v \<in> set objs"
  shows "heap_inv (set_root r v s) objs"
proof (rule heap_inv_frame[OF assms(1)])
  fix q assume "q \<in> set (roots_head (set_root r v s))"
  then have "q \<in> set (roots_head s)" by (simp add: set_root_def)
  then show "cells (set_root r v s) q \<in> set objs"
    using assms(2) heap_inv_rootsD[OF assms(1)] by (simp add: set_root_def)
qed (simp_all add: set_root_def)

lemma pop_root_Inr:
  "pop_root s = Inr s' \<Longrightarrow> \<exists>r. roots_head s = r # roots_head s' \<and> s' = s\<lparr>roots_head := roots_head s'\<rparr>"
  by (auto simp: pop_root_def stack_pop_def split: list.splits)

lemma heap_inv_pop_root:
  assumes "heap_inv s objs" "pop_root s = Inr s'"
  shows "heap_inv s' objs"
proof -
  obtain r rs where r: "roots_head s = r # rs" "s' = s\<lparr>roots_head := rs\<rparr>"
    using assms(2) by (auto simp: pop_root_def stack_pop_def split: list.splits)
  show ?thesis
  proof (rule heap_inv_frame[OF assms(1)])
    fix q assume "q \<in> set (roots_head s')"
    then have "q \<in> set (roots_head s)" using r by simp
    then show "cells s' q \<in> set objs"
      using heap_inv_rootsD[OF assms(1)] r by simp
  qed (simp_all add: r)
qed

lemma pop_root_push_root [simp]: "pop_root (push_root r s) = Inr s"
  by (simp add: pop_root_def push_root_def stack_pop_def stack_push_def)

text \<open>Linking a registered object at the head of the list.\<close>

lemma heap_inv_link:
  assumes inv: "heap_inv s objs" and obj: "obj \<noteq> 0" "obj \<notin> set objs"
    and ob: "memory s obj = Some ob" "class_ok (ob\<lparr>class_ptr := cl\<rparr>)"
      "set (children_of ob) \<subseteq> set objs"
    and cnt: "object_count s \<noteq> 10000"
  shows "heap_inv
           (s\<lparr>object_count := object_count s + 1,
               memory := (memory s)(obj \<mapsto> ob\<lparr>next_ptr := heap_head s, marked := False,
                                             class_ptr := cl\<rparr>),
               heap_head := obj\<rparr>)
           (obj # objs)"
proof -
  let ?ob = "ob\<lparr>next_ptr := heap_head s, marked := False, class_ptr := cl\<rparr>"
  let ?h = "(memory s)(obj \<mapsto> ?ob)"
  have g: "graph_ok (memory s) objs" using inv by (simp add: heap_inv_def)
  have same: "\<And>a. a \<in> set objs \<Longrightarrow> ?h a = memory s a" using obj(2) by auto
  have i: "object_list (memory s) (heap_head s) objs"
    "\<forall>a \<in> set objs. \<not> is_marked (memory s) a"
    "\<forall>r \<in> set (roots_head s). cells s r \<in> set objs"
    "object_count s = int (length objs)" "object_count s \<le> 10000"
    using inv unfolding heap_inv_def by blast+
  have "object_list ?h (heap_head s) objs = object_list (memory s) (heap_head s) objs"
    by (rule object_list_cong) (simp only: same)
  then have ol: "object_list ?h (heap_head s) objs" using i(1) by simp
  have ok: "class_ok ?ob"
    using ob(2) by (simp add: class_ok_cong[of ?ob "ob\<lparr>class_ptr := cl\<rparr>"])
  have kids: "children_of ?ob = children_of ob" by (simp add: children_of_def)
  have g': "graph_ok ?h (obj # objs)"
    unfolding graph_ok_def
  proof (intro conjI ballI)
    show "0 \<notin> set (obj # objs)" using g obj(1) by (simp add: graph_ok_def)
  next
    fix a assume a: "a \<in> set (obj # objs)"
    show "case ?h a of None \<Rightarrow> False
          | Some ob \<Rightarrow> class_ok ob \<and> set (children_of ob) \<subseteq> set (obj # objs)"
    proof (cases "a = obj")
      case True
      then show ?thesis using ok kids ob(3) by auto
    next
      case False
      then have ain: "a \<in> set objs" using a by simp
      obtain oa where oa: "memory s a = Some oa" "class_ok oa" "set (children_of oa) \<subseteq> set objs"
        using graph_okD[OF g ain] by blast
      have "?h a = Some oa" using False oa(1) by simp
      then show ?thesis using oa(2,3) by auto
    qed
  qed
  have unm: "\<forall>a \<in> set (obj # objs). \<not> is_marked ?h a"
  proof
    fix a assume a: "a \<in> set (obj # objs)"
    show "\<not> is_marked ?h a"
    proof (cases "a = obj")
      case True
      then show ?thesis by simp
    next
      case False
      then show ?thesis using a i(2) by simp
    qed
  qed
  have ol': "object_list ?h obj (obj # objs)" using ol obj(1) by simp
  have cnt': "object_count s + 1 = int (length (obj # objs))" "object_count s + 1 \<le> 10000"
    using i(4,5) cnt by simp_all
  have rts: "\<forall>r \<in> set (roots_head s). cells s r \<in> set (obj # objs)" using i(3) by simp
  show ?thesis
    unfolding heap_inv_def using ol' g' unm cnt' rts by simp
qed

lemma register_object_inv:
  assumes inv: "heap_inv s objs" and obj: "obj \<noteq> 0" "obj \<notin> set objs"
    and ob: "memory s obj = Some ob" "class_ok (ob\<lparr>class_ptr := cl\<rparr>)"
      "set (children_of ob) \<subseteq> root_values s"
    and run: "register_object obj cl s = Some (Inr s')"
  shows "\<exists>objs'. registered obj s objs s' objs'"
proof (cases "object_count s = 10000")
  case False
  have small: "object_count s \<noteq> INT_MAX" using inv by (auto simp: heap_inv_def INT_MAX_def)
  have s': "s' = s\<lparr>object_count := object_count s + 1,
               memory := (memory s)(obj \<mapsto> ob\<lparr>next_ptr := heap_head s, marked := False,
                                             class_ptr := cl\<rparr>),
               heap_head := obj\<rparr>"
    using run False small ob(1) by (simp add: register_object_def)
  have kids: "set (children_of ob) \<subseteq> set objs"
    using ob(3) heap_inv_roots[OF inv] by auto
  have "heap_inv s' (obj # objs)"
    unfolding s' by (rule heap_inv_link[OF inv obj ob(1,2) kids False])
  then have "registered obj s objs s' objs"
    using heap_inv_roots[OF inv] by (simp add: registered_def s')
  then show ?thesis by blast
next
  case True
  let ?K = "filter (\<lambda>a. a \<in> live s) objs"
  obtain s1 where s1: "gc s = Some (Inr s1)"
    and reg: "register_object obj cl s =
       (if object_count s1 = 10000
        then Some (Inl (Fatal ''register_object: object count limit reached.''))
        else if object_count s1 = INT_MAX then Some (Inl Undefined_behaviour)
        else (case memory s1 obj of
               None \<Rightarrow> Some (Inl Undefined_behaviour)
             | Some ob \<Rightarrow>
                 Some (Inr (s1\<lparr>object_count := object_count s1 + 1,
                               memory := (memory s1)
                                 (obj \<mapsto> ob\<lparr>next_ptr := heap_head s1, marked := False,
                                            class_ptr := cl\<rparr>),
                               heap_head := obj\<rparr>))))"
    using run True by (auto simp: register_object_def split: option.splits sum.splits)
  have col: "collected s objs s1" using gc_total[OF inv] s1 by auto
  have inv1: "heap_inv s1 ?K" using col by (simp add: collected_def)
  have cnt1: "object_count s1 \<noteq> 10000" using reg run by (auto split: if_splits)
  have ob1: "memory s1 obj = Some ob" using col obj(2) ob(1) by (simp add: collected_def)
  have s': "s' = s1\<lparr>object_count := object_count s1 + 1,
               memory := (memory s1)(obj \<mapsto> ob\<lparr>next_ptr := heap_head s1, marked := False,
                                             class_ptr := cl\<rparr>),
               heap_head := obj\<rparr>"
    using reg run cnt1 ob1 by (auto split: if_splits)
  have rl: "root_values s \<subseteq> live s"
    by (auto simp: live_def reachable_def)
  have rK: "root_values s \<subseteq> set ?K"
    using rl heap_inv_roots[OF inv] by auto
  have kids: "set (children_of ob) \<subseteq> set ?K" using ob(3) rK by auto
  have nK: "obj \<notin> set ?K" using obj(2) by simp
  have "heap_inv s' (obj # ?K)"
    unfolding s' by (rule heap_inv_link[OF inv1 obj(1) nK ob1 ob(2) kids cnt1])
  moreover have "roots_head s' = roots_head s" "cells s' = cells s"
    using col by (simp_all add: s' collected_def)
  ultimately have "registered obj s objs s' ?K"
    using rK by (simp add: registered_def)
  then show ?thesis by blast
qed

lemma register_object_block:
  assumes inv: "heap_inv s objs" and obj: "obj \<notin> set objs"
    and ob: "memory s obj = Some ob"
    and run: "register_object obj cl s = Some (Inr s')"
  shows "\<exists>ob'. memory s' obj = Some ob' \<and> class_ptr ob' = cl \<and> \<not> marked ob' \<and>
               payload ob' = payload ob \<and> heap_head s' = obj"
proof (cases "object_count s = 10000")
  case False
  then show ?thesis
    using run ob by (auto simp: register_object_def split: if_splits)
next
  case True
  then obtain s1 where s1: "gc s = Some (Inr s1)"
    using run by (auto simp: register_object_def split: option.splits sum.splits)
  have col: "collected s objs s1" using gc_total[OF inv] s1 by auto
  have ob1: "memory s1 obj = Some ob" using col obj ob by (simp add: collected_def)
  show ?thesis
    using run True s1 ob1 by (auto simp: register_object_def split: if_splits)
qed

lemma class_ok_fresh_cons: "class_ok ((fresh_block (Cons_payload f a b))\<lparr>class_ptr := cons_class\<rparr>)"
  by (simp add: class_ok_def fresh_block_def)

lemma class_ok_fresh_atom: "class_ok ((fresh_block (Atom_payload cs))\<lparr>class_ptr := atom_class\<rparr>)"
  by (simp add: class_ok_def fresh_block_def)

lemma class_ok_fresh_function:
  "class_ok ((fresh_block (Function_payload ap d))\<lparr>class_ptr := function_class\<rparr>)"
  by (simp add: class_ok_def fresh_block_def)

lemma children_fresh:
  "children_of (fresh_block (Cons_payload f a b)) = [a, b]"
  "children_of (fresh_block (Atom_payload cs)) = []"
  "children_of (fresh_block (Function_payload ap d)) = [d]"
  by (simp_all add: children_of_def fresh_block_def)

lemma registered_member:
  "registered obj s objs s' objs' \<Longrightarrow> heap_inv s' (obj # objs') \<and> obj \<in> set (obj # objs')"
  by (simp add: registered_def)

lemma create_cons_inv:
  assumes inv: "heap_inv s objs" and fresh: "memory s new = None"
    and args: "hd_arg \<in> set objs" "tl_arg \<in> set objs"
    and run: "create_cons new hd_arg tl_arg s = Some (Inr (r, s'))"
  shows "\<exists>objs'. heap_inv s' objs' \<and> r \<in> set objs' \<and> roots_head s' = roots_head s"
proof -
  let ?blk = "fresh_block (Cons_payload False hd_arg tl_arg)"
  define s1 where "s1 = s\<lparr>memory := (memory s)(new \<mapsto> ?blk),
      cells := (cells s)(create_cons_head := hd_arg, create_cons_tail := tl_arg)\<rparr>"
  define s3 where "s3 = push_root create_cons_tail (push_root create_cons_head s1)"
  have new0: "new \<noteq> 0" using run by (cases "new = 0") (simp_all add: create_cons_def)
  have nin: "new \<notin> set objs" using heap_inv_allocated[OF inv, of new] fresh by blast
  have inv1: "heap_inv s1 objs"
  proof (rule heap_inv_frame[OF inv])
    fix a assume "a \<in> set objs"
    then show "memory s1 a = memory s a" using nin by (auto simp: s1_def)
  next
    fix q assume "q \<in> set (roots_head s1)"
    then have "cells s q \<in> set objs" using heap_inv_rootsD[OF inv] by (simp add: s1_def)
    then show "cells s1 q \<in> set objs" using args by (simp add: s1_def)
  qed (simp_all add: s1_def)
  have c1: "cells s1 create_cons_head = hd_arg" "cells s1 create_cons_tail = tl_arg"
    by (simp_all add: s1_def)
  have inv3: "heap_inv s3 objs"
    unfolding s3_def
    by (intro heap_inv_push_root inv1) (simp_all add: push_root_def c1 args)
  have m3: "memory s3 new = Some ?blk" by (simp add: s3_def s1_def push_root_def)
  have r3: "roots_head s3 = create_cons_tail # create_cons_head # roots_head s"
    by (simp add: s3_def s1_def push_root_def stack_push_def)
  have c3: "cells s3 = cells s1" by (simp add: s3_def push_root_def)
  have "hd_arg \<in> root_values s3" "tl_arg \<in> root_values s3"
    unfolding root_values_def r3 c3 using c1 by (simp_all add: image_iff)
  then have kids: "set (children_of ?blk) \<subseteq> root_values s3"
    by (simp add: children_fresh)
  obtain s4 where s4: "register_object new cons_class s3 = Some (Inr s4)"
    and rest: "(case pop_root s4 of
                   Inl e \<Rightarrow> Some (Inl e)
                 | Inr s5 \<Rightarrow>
                     (case pop_root s5 of
                        Inl e \<Rightarrow> Some (Inl e)
                      | Inr s6 \<Rightarrow> Some (Inr (new, s6)))) = Some (Inr (r, s'))"
    using run new0 unfolding create_cons_def s3_def s1_def Let_def
    by (auto split: option.splits sum.splits)
  obtain objs' where reg: "registered new s3 objs s4 objs'"
    using register_object_inv[OF inv3 new0 nin m3 class_ok_fresh_cons kids s4] by blast
  have inv4: "heap_inv s4 (new # objs')" and r4: "roots_head s4 = roots_head s3"
    using reg by (simp_all add: registered_def)
  obtain s5 where s5: "pop_root s4 = Inr s5" "pop_root s5 = Inr s'" and rn: "r = new"
    using rest by (auto split: sum.splits)
  have inv5: "heap_inv s5 (new # objs')" by (rule heap_inv_pop_root[OF inv4 s5(1)])
  have inv6: "heap_inv s' (new # objs')" by (rule heap_inv_pop_root[OF inv5 s5(2)])
  have "roots_head s' = roots_head s"
    using s5 r4 r3 by (auto simp: pop_root_def stack_pop_def)
  then show ?thesis using inv6 rn by auto
qed

lemma create_atom_inv:
  assumes inv: "heap_inv s objs" and fresh: "memory s new = None"
    and run: "create_atom new buffer s = Some (Inr (r, s'))"
  shows "\<exists>objs'. heap_inv s' objs' \<and> r \<in> set objs' \<and> roots_head s' = roots_head s"
proof -
  let ?blk = "fresh_block (Atom_payload buffer)"
  define s1 where "s1 = s\<lparr>memory := (memory s)(new \<mapsto> ?blk)\<rparr>"
  have new0: "new \<noteq> 0" using run by (cases "new = 0") (simp_all add: create_atom_def)
  have nin: "new \<notin> set objs" using heap_inv_allocated[OF inv, of new] fresh by blast
  have inv1: "heap_inv s1 objs"
  proof (rule heap_inv_frame[OF inv])
    fix a assume "a \<in> set objs"
    then show "memory s1 a = memory s a" using nin by (auto simp: s1_def)
  next
    fix q assume "q \<in> set (roots_head s1)"
    then show "cells s1 q \<in> set objs" using heap_inv_rootsD[OF inv] by (simp add: s1_def)
  qed (simp_all add: s1_def)
  have m1: "memory s1 new = Some ?blk" by (simp add: s1_def)
  have kids: "set (children_of ?blk) \<subseteq> root_values s1" by (simp add: children_fresh)
  obtain s2 where s2: "register_object new atom_class s1 = Some (Inr s2)" and rs: "r = new" "s' = s2"
    using run new0 unfolding create_atom_def s1_def Let_def
    by (auto split: option.splits sum.splits)
  obtain objs' where reg: "registered new s1 objs s2 objs'"
    using register_object_inv[OF inv1 new0 nin m1 class_ok_fresh_atom kids s2] by blast
  then have "heap_inv s' (new # objs')" "roots_head s' = roots_head s"
    using rs by (simp_all add: registered_def s1_def)
  then show ?thesis using rs by auto
qed

lemma create_function_inv:
  assumes inv: "heap_inv s objs" and fresh: "memory s new = None"
    and args: "d \<in> set objs"
    and run: "create_function new ap d s = Some (Inr (r, s'))"
  shows "\<exists>objs'. heap_inv s' objs' \<and> r \<in> set objs' \<and> roots_head s' = roots_head s"
proof -
  let ?blk = "fresh_block (Function_payload ap d)"
  define s1 where "s1 = s\<lparr>memory := (memory s)(new \<mapsto> ?blk),
      cells := (cells s)(create_function_data := d)\<rparr>"
  define s2 where "s2 = push_root create_function_data s1"
  have new0: "new \<noteq> 0" using run by (cases "new = 0") (simp_all add: create_function_def)
  have nin: "new \<notin> set objs" using heap_inv_allocated[OF inv, of new] fresh by blast
  have inv1: "heap_inv s1 objs"
  proof (rule heap_inv_frame[OF inv])
    fix a assume "a \<in> set objs"
    then show "memory s1 a = memory s a" using nin by (auto simp: s1_def)
  next
    fix q assume "q \<in> set (roots_head s1)"
    then have "cells s q \<in> set objs" using heap_inv_rootsD[OF inv] by (simp add: s1_def)
    then show "cells s1 q \<in> set objs" using args by (simp add: s1_def)
  qed (simp_all add: s1_def)
  have c1: "cells s1 create_function_data = d" by (simp add: s1_def)
  have inv2: "heap_inv s2 objs"
    unfolding s2_def by (intro heap_inv_push_root inv1) (simp add: c1 args)
  have m2: "memory s2 new = Some ?blk" by (simp add: s2_def s1_def push_root_def)
  have r2: "roots_head s2 = create_function_data # roots_head s"
    by (simp add: s2_def s1_def push_root_def stack_push_def)
  have c2: "cells s2 = cells s1" by (simp add: s2_def push_root_def)
  have "d \<in> root_values s2"
    unfolding root_values_def r2 c2 using c1 by (simp add: image_iff)
  then have kids: "set (children_of ?blk) \<subseteq> root_values s2"
    by (simp add: children_fresh)
  obtain s3 where s3: "register_object new function_class s2 = Some (Inr s3)"
    and rest: "(case pop_root s3 of Inl e \<Rightarrow> Some (Inl e) | Inr s4 \<Rightarrow> Some (Inr (new, s4)))
               = Some (Inr (r, s'))"
    using run new0 unfolding create_function_def s2_def s1_def Let_def
    by (auto split: option.splits sum.splits)
  obtain objs' where reg: "registered new s2 objs s3 objs'"
    using register_object_inv[OF inv2 new0 nin m2 class_ok_fresh_function kids s3] by blast
  have inv3: "heap_inv s3 (new # objs')" and r3: "roots_head s3 = roots_head s2"
    using reg by (simp_all add: registered_def)
  have s4: "pop_root s3 = Inr s'" and rn: "r = new"
    using rest by (auto split: sum.splits)
  have inv4: "heap_inv s' (new # objs')" by (rule heap_inv_pop_root[OF inv3 s4])
  have "roots_head s' = roots_head s"
    using s4 r3 r2 by (auto simp: pop_root_def stack_pop_def)
  then show ?thesis using inv4 rn by auto
qed

lemma heap_inv_initial: "heap_inv initial_state []"
  by (simp add: heap_inv_def graph_ok_def initial_state_def)

lemma init_globals_inv:
  assumes "init_globals initial_state = Some (Inr s')"
  shows "\<exists>objs'. heap_inv s' objs'"
proof -
  let ?blk = "\<lparr>next_ptr = 0, marked = False, class_ptr = nil_class, payload = No_payload\<rparr>"
  obtain s1 where s1: "register_object nil_value nil_class initial_state = Some (Inr s1)"
    and s': "s' = push_root cont_stack (push_root operand_stack (push_root nil_root s1))"
    using assms by (auto simp: init_globals_def split: option.splits sum.splits)
  have m: "memory initial_state nil_value = Some ?blk" by (simp add: initial_state_def)
  have ok: "class_ok (?blk\<lparr>class_ptr := nil_class\<rparr>)" by (simp add: class_ok_def)
  have kids: "set (children_of ?blk) \<subseteq> root_values initial_state"
    by (simp add: children_of_def)
  have n0: "nil_value \<noteq> 0" "nil_value \<notin> set []" by (simp_all add: nil_value_def)
  obtain objs' where reg: "registered nil_value initial_state [] s1 objs'"
    using register_object_inv[OF heap_inv_initial n0 m ok kids s1] by blast
  have inv1: "heap_inv s1 (nil_value # objs')" and c1: "cells s1 = cells initial_state"
    using reg unfolding registered_def by blast+
  have cs: "cells s1 nil_root = nil_value" "cells s1 operand_stack = nil_value"
    "cells s1 cont_stack = nil_value"
    by (simp_all add: c1 initial_state_def)
  have inv2: "heap_inv (push_root nil_root s1) (nil_value # objs')"
    by (rule heap_inv_push_root[OF inv1]) (simp add: cs)
  have inv3: "heap_inv (push_root operand_stack (push_root nil_root s1)) (nil_value # objs')"
    by (rule heap_inv_push_root[OF inv2]) (simp add: cs push_root_def)
  have "heap_inv s' (nil_value # objs')"
    unfolding s' by (rule heap_inv_push_root[OF inv3]) (simp add: cs push_root_def)
  then show ?thesis by blast
qed

lemma pop_like_inv:
  assumes inv: "heap_inv s objs"
    and ob: "memory s (cells s c) = Some ob" "payload ob = Cons_payload tin hp tp"
  shows "heap_inv (set_root c tp s) objs"
proof (rule heap_inv_frame[OF inv])
  fix q assume q: "q \<in> set (roots_head (set_root c tp s))"
  then have qr: "q \<in> set (roots_head s)" by (simp add: set_root_def)
  show "cells (set_root c tp s) q \<in> set objs"
  proof (cases "q = c")
    case True
    then have cin: "cells s c \<in> set objs" using heap_inv_rootsD[OF inv qr] by simp
    have g: "graph_ok (memory s) objs" using inv by (simp add: heap_inv_def)
    have "set (children_of ob) \<subseteq> set objs" using graph_okD[OF g cin] ob(1) by auto
    then have "tp \<in> set objs" using ob(2) by (simp add: children_of_def)
    then show ?thesis using True by (simp add: set_root_def)
  next
    case False
    then show ?thesis using heap_inv_rootsD[OF inv qr] by (simp add: set_root_def)
  qed
qed (simp_all add: set_root_def)

lemma pop_inv:
  assumes "heap_inv s objs" "pop s = Inr (r, s')"
  shows "heap_inv s' objs"
proof -
  obtain ob tin hp tp where "memory s (cells s operand_stack) = Some ob"
    "payload ob = Cons_payload tin hp tp" "s' = set_root operand_stack tp s"
    using assms(2) unfolding pop_def Let_def
    by (auto split: option.splits if_splits payload.splits)
  then show ?thesis using pop_like_inv[OF assms(1)] by simp
qed

lemma pop_cont_inv:
  assumes "heap_inv s objs" "pop_cont s = Inr (r, s')"
  shows "heap_inv s' objs"
proof (cases "s' = s")
  case True
  then show ?thesis using assms(1) by simp
next
  case False
  then obtain ob tin hp tp where "memory s (cells s cont_stack) = Some ob"
    "payload ob = Cons_payload tin hp tp" "s' = set_root cont_stack tp s"
    using assms(2) unfolding pop_cont_def Let_def
    by (auto split: option.splits if_splits payload.splits)
  then show ?thesis using pop_like_inv[OF assms(1)] by simp
qed

lemma push_inv:
  assumes inv: "heap_inv s objs" and fresh: "new = 0 \<or> memory s new = None"
    and args: "obj \<in> set objs" "cells s operand_stack \<in> set objs"
    and run: "push new obj s = Some (Inr s')"
  shows "\<exists>objs'. heap_inv s' objs'"
proof -
  obtain r s1 where c: "create_cons new obj (cells s operand_stack) s = Some (Inr (r, s1))"
    and s': "s' = set_root operand_stack r s1"
    using run unfolding push_def Let_def by (auto split: option.splits sum.splits)
  have "new \<noteq> 0" using c by (cases "new = 0") (simp_all add: create_cons_def)
  then have f: "memory s new = None" using fresh by simp
  obtain objs' where "heap_inv s1 objs'" "r \<in> set objs'"
    using create_cons_inv[OF inv f args c] by blast
  then have "heap_inv s' objs'" unfolding s' by (rule heap_inv_set_root)
  then show ?thesis by blast
qed

lemma push_cont_inv:
  assumes inv: "heap_inv s objs" and fresh: "new = 0 \<or> memory s new = None"
    and args: "obj \<in> set objs" "cells s cont_stack \<in> set objs"
    and run: "push_cont new obj s = Some (Inr s')"
  shows "\<exists>objs'. heap_inv s' objs'"
proof -
  obtain r s1 where c: "create_cons new obj (cells s cont_stack) s = Some (Inr (r, s1))"
    and s': "s' = set_root cont_stack r s1"
    using run unfolding push_cont_def Let_def by (auto split: option.splits sum.splits)
  have "new \<noteq> 0" using c by (cases "new = 0") (simp_all add: create_cons_def)
  then have f: "memory s new = None" using fresh by simp
  obtain objs' where "heap_inv s1 objs'" "r \<in> set objs'"
    using create_cons_inv[OF inv f args c] by blast
  then have "heap_inv s' objs'" unfolding s' by (rule heap_inv_set_root)
  then show ?thesis by blast
qed

lemma final_state_Inr:
  "final_state r = Some (Inr s') \<Longrightarrow> \<exists>v. r = Some (Inr (v, s'))"
  by (auto simp: final_state_def split: option.splits sum.splits)

lemma unchanged_Inr: "unchanged s r = Some (Inr s') \<Longrightarrow> s' = s"
  by (auto simp: unchanged_def split: option.splits sum.splits)

lemma call_preserves_heap_inv:
  assumes inv: "heap_inv s objs" and pre: "entry_pre e s objs"
    and run: "call e s = Some (Inr s')"
  shows "\<exists>objs'. heap_inv s' objs'"
proof (cases e)
  case Init_globals
  then show ?thesis using pre run init_globals_inv by simp
next
  case (Register_object obj cl)
  then obtain ob where ob: "obj \<noteq> 0" "obj \<notin> set objs" "memory s obj = Some ob"
    "class_ok (ob\<lparr>class_ptr := cl\<rparr>)" "set (children_of ob) \<subseteq> root_values s"
    using pre by (auto split: option.splits)
  have "register_object obj cl s = Some (Inr s')" using run Register_object by simp
  then obtain objs' where "registered obj s objs s' objs'"
    using register_object_inv[OF inv ob] by blast
  then show ?thesis unfolding registered_def by blast
next
  case Create_nil
  then show ?thesis using run inv by (auto simp: create_nil_def)
next
  case (Create_cons new h t)
  then obtain r where c: "create_cons new h t s = Some (Inr (r, s'))"
    using run final_state_Inr by fastforce
  have "new \<noteq> 0" using c by (cases "new = 0") (simp_all add: create_cons_def)
  then have "memory s new = None" "h \<in> set objs" "t \<in> set objs"
    using pre Create_cons by simp_all
  then show ?thesis using create_cons_inv[OF inv _ _ _ c] by blast
next
  case (Create_atom new buffer)
  then obtain r where c: "create_atom new buffer s = Some (Inr (r, s'))"
    using run final_state_Inr by fastforce
  have "new \<noteq> 0" using c by (cases "new = 0") (simp_all add: create_atom_def)
  then have "memory s new = None" using pre Create_atom by simp
  then show ?thesis using create_atom_inv[OF inv _ c] by blast
next
  case (Create_function new ap d)
  then obtain r where c: "create_function new ap d s = Some (Inr (r, s'))"
    using run final_state_Inr by fastforce
  have "new \<noteq> 0" using c by (cases "new = 0") (simp_all add: create_function_def)
  then have "memory s new = None" "d \<in> set objs" using pre Create_function by simp_all
  then show ?thesis using create_function_inv[OF inv _ _ c] by blast
next
  case (Push_root r)
  then show ?thesis using run pre heap_inv_push_root[OF inv] by auto
next
  case Pop_root
  then show ?thesis using run heap_inv_pop_root[OF inv] by auto
next
  case (Set_root r v)
  then show ?thesis using run pre heap_inv_set_root[OF inv] by auto
next
  case Gc
  then have "gc s = Some (Inr s')" using run by simp
  then have "collected s objs s'" using gc_total[OF inv] by auto
  then show ?thesis unfolding collected_def by blast
next
  case (Push new obj)
  have r: "push new obj s = Some (Inr s')" using run Push by simp
  have p: "new = 0 \<or> memory s new = None" "obj \<in> set objs"
    "cells s operand_stack \<in> set objs"
    using pre Push by simp_all
  show ?thesis by (rule push_inv[OF inv p r])
next
  case Pop
  then obtain r where "pop s = Inr (r, s')" using run final_state_Inr by fastforce
  then show ?thesis using pop_inv[OF inv] by blast
next
  case (Push_cont new obj)
  have r: "push_cont new obj s = Some (Inr s')" using run Push_cont by simp
  have p: "new = 0 \<or> memory s new = None" "obj \<in> set objs"
    "cells s cont_stack \<in> set objs"
    using pre Push_cont by simp_all
  show ?thesis by (rule push_cont_inv[OF inv p r])
next
  case Pop_cont
  then obtain r where "pop_cont s = Inr (r, s')" using run final_state_Inr by fastforce
  then show ?thesis using pop_cont_inv[OF inv] by blast
next
  case (Destruct_cons obj)
  then show ?thesis using run inv unchanged_Inr by fastforce
next
  case (Atom_equals a b)
  then show ?thesis using run inv unchanged_Inr by fastforce
next
  case (Assoc key m)
  then show ?thesis using run inv unchanged_Inr by fastforce
qed

lemmas ex_defs = ex_state_def ex_mem_def ex_cell_def

lemma ex_graph_ok: "graph_ok ex_mem [4, 3, 2, 1]"
  by (simp add: graph_ok_def class_ok_def children_of_def ex_defs)

lemma ex_unmarked: "\<forall>a \<in> set [4, 3, 2, 1]. \<not> is_marked ex_mem a"
  by (simp add: is_marked_def ex_defs)

lemma ex_heap_inv: "heap_inv ex_state [4, 3, 2, 1]"
  by (simp add: heap_inv_def graph_ok_def class_ok_def children_of_def is_marked_def ex_defs)

lemma finished_fields:
  "class_ptr (finished ob) = class_ptr ob" "next_ptr (finished ob) = next_ptr ob"
  "payload (finished ob) =
     (case payload ob of Cons_payload tin hp tp \<Rightarrow> Cons_payload False hp tp | p \<Rightarrow> p)"
  by (simp_all add: finished_def)

section \<open>The claims of the specification\<close>

text \<open>
  C4, as the claim states it, fails.  On the stopped cons cell at 5 (grandparent 7, children
  8 and 9, cursor at the first child) \<open>cons_mark_next\<close> leaves neither the grandparent in
  child slot 0 nor the cell's own address in child slot 1.
\<close>

theorem cons_mark_next_rotation_counterexample:
  "head (payload (the (result_memory (cons_mark_next 8 5 [5 \<mapsto> busy_cons]) 5))) \<noteq> 7 \<and>
   tail (payload (the (result_memory (cons_mark_next 8 5 [5 \<mapsto> busy_cons]) 5))) \<noteq> 5"
  by (simp add: cons_mark_next_def busy_cons_def result_memory_def)

text \<open>
  C4, amended: for a cons cell \<open>p\<close> under traversal with its cursor at index 0 (flag
  \<open>tail_is_next\<close> set, head field holding the grandparent \<open>gp\<close>, tail field holding the
  second child \<open>tp\<close>), \<open>cons_mark_next\<close> called with \<open>obj\<close> (the first child, just
  finished) returns true, sets \<open>obj\<close> to the second child, keeps \<open>parent\<close> at \<open>p\<close>, moves
  the cursor to 1 (clears the flag), puts the first child back into child slot 0 and moves
  the grandparent into child slot 1.
\<close>

theorem cons_mark_next_rotation:
  assumes "h p = Some ob" "payload ob = Cons_payload True gp tp"
  shows "cons_mark_next obj p h =
           Inr (True, tp, p, h(p \<mapsto> ob\<lparr>payload := Cons_payload False obj gp\<rparr>))"
  using assms by (simp add: cons_mark_next_def)

theorem cons_mark_next_rotation_witness:
  "[5 \<mapsto> busy_cons] 5 = Some busy_cons \<and> payload busy_cons = Cons_payload True 7 9 \<and>
   cons_mark_next 8 5 [5 \<mapsto> busy_cons] =
     Inr (True, 9, 5, [5 \<mapsto> busy_cons\<lparr>payload := Cons_payload False 8 7\<rparr>])"
  using cons_mark_next_rotation[of "[5 \<mapsto> busy_cons]" 5 busy_cons 7 9 8]
  by (simp add: busy_cons_def)

text \<open>
  C10: when the cell \<open>cont_stack\<close> holds an object whose class is not the cons class,
  \<open>pop_cont\<close> returns the null pointer and the state it was called in, unchanged; it does
  not stop the program.  \<open>pop\<close>, when the cell \<open>operand_stack\<close> holds such an object,
  stops the program with the message "pop: stack underflow".
\<close>

theorem pop_cont_empty_returns_null:
  "(memory s (cells s cont_stack) = Some ob \<and> class_ptr ob \<noteq> cons_class \<longrightarrow>
      pop_cont s = Inr (0, s)) \<and>
   (memory s (cells s operand_stack) = Some ob' \<and> class_ptr ob' \<noteq> cons_class \<longrightarrow>
      pop s = Inl (Fatal ''pop: stack underflow''))"
  by (simp add: pop_cont_def pop_def)

theorem pop_cont_empty_returns_null_witness:
  "pop_cont initial_state = Inr (0, initial_state) \<and>
   pop initial_state = Inl (Fatal ''pop: stack underflow'')"
  using pop_cont_empty_returns_null[of initial_state
      "\<lparr>next_ptr = 0, marked = False, class_ptr = nil_class, payload = No_payload\<rparr>"
      "\<lparr>next_ptr = 0, marked = False, class_ptr = nil_class, payload = No_payload\<rparr>"]
  by (simp add: initial_state_def nil_value_def)

text \<open>
  C2: in a heap whose objects are all unmarked, \<open>mark r\<close> on an object \<open>r\<close> of the heap
  returns, and afterwards the marked objects of the heap are exactly the objects reachable
  from \<open>r\<close> through the children (\<open>r\<close> itself included); memory outside the heap is
  untouched.
\<close>

theorem mark_marks_exactly_reachable:
  assumes "graph_ok h objs" "\<forall>a \<in> set objs. \<not> is_marked h a" "r \<in> set objs"
  shows "\<exists>h'. mark r h = Some (Inr h') \<and>
              (\<forall>a \<in> set objs. is_marked h' a = (a \<in> reachable h {r})) \<and>
              (\<forall>a. a \<notin> set objs \<longrightarrow> h' a = h a)"
proof -
  have cl: "marks_closed h objs" using assms(2) by (simp add: marks_closed_def)
  have run: "mark r h = Some (Inr (painted h (reachable h {r})))"
    by (rule mark_exact[OF assms(1,3) cl])
  have sub: "reachable h {r} \<subseteq> set objs"
    using reachable_in_objs[OF assms(1), of "{r}"] assms(3) by simp
  have "is_marked (painted h (reachable h {r})) a = (a \<in> reachable h {r})" if "a \<in> set objs" for a
    using graph_okD[OF assms(1) that] assms(2) that by (auto simp: is_marked_painted)
  moreover have "painted h (reachable h {r}) a = h a" if "a \<notin> set objs" for a
    using that sub by (auto simp: painted_def)
  ultimately show ?thesis using run by simp
qed

theorem mark_marks_exactly_reachable_witness:
  "\<exists>h'. mark 2 ex_mem = Some (Inr h') \<and>
        (\<forall>a \<in> set [4, 3, 2, 1]. is_marked h' a = (a \<in> reachable ex_mem {2})) \<and>
        (\<forall>a. a \<notin> set [4, 3, 2, 1] \<longrightarrow> h' a = ex_mem a)"
  using mark_marks_exactly_reachable[of ex_mem "[4, 3, 2, 1]" 2] ex_graph_ok ex_unmarked
  by simp

text \<open>
  C3: in a heap whose objects are all unmarked, after \<open>mark r\<close> every object reachable
  from \<open>r\<close> has the class and the child pointers it had before the call: the head and the
  tail of a cons, the data of a function (whose \<open>apply\<close> is unchanged as well).  Only the
  cursor flag \<open>tail_is_next\<close> of a cons may differ: it is cleared.
\<close>

theorem mark_restores_child_pointers:
  assumes "graph_ok h objs" "\<forall>a \<in> set objs. \<not> is_marked h a" "r \<in> set objs"
  shows "\<exists>h'. mark r h = Some (Inr h') \<and>
              (\<forall>a \<in> reachable h {r}. \<exists>ob ob'. h a = Some ob \<and> h' a = Some ob' \<and>
                 class_ptr ob' = class_ptr ob \<and> next_ptr ob' = next_ptr ob \<and>
                 children_of ob' = children_of ob \<and>
                 payload ob' = (case payload ob of
                                  Cons_payload tin hp tp \<Rightarrow> Cons_payload False hp tp
                                | p \<Rightarrow> p))"
proof -
  have cl: "marks_closed h objs" using assms(2) by (simp add: marks_closed_def)
  have run: "mark r h = Some (Inr (painted h (reachable h {r})))"
    by (rule mark_exact[OF assms(1,3) cl])
  have sub: "reachable h {r} \<subseteq> set objs"
    using reachable_in_objs[OF assms(1), of "{r}"] assms(3) by simp
  have fin: "\<exists>ob. h a = Some ob \<and> painted h (reachable h {r}) a = Some (finished ob)"
    if "a \<in> reachable h {r}" for a
  proof -
    have a: "a \<in> set objs" using that sub by auto
    then obtain ob where "h a = Some ob" using graph_okD[OF assms(1) a] by auto
    then show ?thesis using that assms(2) a by (simp add: painted_def)
  qed
  have "\<forall>a \<in> reachable h {r}. \<exists>ob ob'. h a = Some ob \<and>
       painted h (reachable h {r}) a = Some ob' \<and>
       class_ptr ob' = class_ptr ob \<and> next_ptr ob' = next_ptr ob \<and>
       children_of ob' = children_of ob \<and>
       payload ob' = (case payload ob of
                        Cons_payload tin hp tp \<Rightarrow> Cons_payload False hp tp
                      | p \<Rightarrow> p)"
  proof (intro ballI)
    fix a assume "a \<in> reachable h {r}"
    then obtain ob where ob: "h a = Some ob"
      "painted h (reachable h {r}) a = Some (finished ob)"
      using fin by blast
    show "\<exists>ob ob'. h a = Some ob \<and>
       painted h (reachable h {r}) a = Some ob' \<and>
       class_ptr ob' = class_ptr ob \<and> next_ptr ob' = next_ptr ob \<and>
       children_of ob' = children_of ob \<and>
       payload ob' = (case payload ob of
                        Cons_payload tin hp tp \<Rightarrow> Cons_payload False hp tp
                      | p \<Rightarrow> p)"
      apply (rule exI[of _ ob])
      apply (rule exI[of _ "finished ob"])
      using ob apply (simp add: finished_fields)
      done
  qed
  then show ?thesis using run by simp
qed

theorem mark_restores_child_pointers_witness:
  "\<exists>h'. mark 2 ex_mem = Some (Inr h') \<and>
        (\<forall>a \<in> reachable ex_mem {2}. \<exists>ob ob'. ex_mem a = Some ob \<and> h' a = Some ob' \<and>
           class_ptr ob' = class_ptr ob \<and> next_ptr ob' = next_ptr ob \<and>
           children_of ob' = children_of ob \<and>
           payload ob' = (case payload ob of
                            Cons_payload tin hp tp \<Rightarrow> Cons_payload False hp tp
                          | p \<Rightarrow> p))"
  using mark_restores_child_pointers[of ex_mem "[4, 3, 2, 1]" 2] ex_graph_ok ex_unmarked
  by simp

lemmas eval_simps = ex_defs mark_def mark_loop.simps
  cons_start_marking_def cons_mark_next_def nil_start_marking_def atom_start_marking_def
  function_start_marking_def function_mark_next_def gc_def sweep.simps read_link_def write_link_def
  cons_dispose_def atom_dispose_def function_dispose_def nil_dispose_def INT_MIN_def

lemma ex_gc_returns: "\<exists>s'. gc ex_state = Some (Inr s')"
  by (simp add: eval_simps)

text \<open>
  C5: \<open>mark\<close> returns on every well-formed object graph, cyclic or not, whatever objects
  are already marked.  An object that is already marked when the traversal reaches it in
  the start state is not entered: the traversal continues from the advance state with the
  same variables and the same memory.  The advance state with a null parent is terminal.
  Marks are only ever set, never cleared.
\<close>

theorem mark_terminates:
  assumes "graph_ok h objs" "r \<in> set objs"
  shows "(\<exists>h'. mark r h = Some (Inr h') \<and> (\<forall>a. is_marked h a \<longrightarrow> is_marked h' a)) \<and>
         (\<forall>g obj parent ob. g obj = Some ob \<and> marked ob \<longrightarrow>
            mark_loop L_start_marking obj parent g = mark_loop L_mark_next obj parent g) \<and>
         (\<forall>g obj. mark_loop L_mark_next obj 0 g = Some (Inr g))"
proof -
  obtain h' where run: "mark r h = Some (Inr h')" and st: "\<And>a. settled h h' objs r a"
    using mark_total[OF assms] by blast
  have "is_marked h' a" if "is_marked h a" for a
    using st[of a] that by (auto simp: settled_def is_marked_def)
  then have a: "\<exists>h'. mark r h = Some (Inr h') \<and> (\<forall>a. is_marked h a \<longrightarrow> is_marked h' a)"
    using run by blast
  have b: "\<forall>g obj parent ob. g obj = Some ob \<and> marked ob \<longrightarrow>
            mark_loop L_start_marking obj parent g = mark_loop L_mark_next obj parent g"
    using loop_start_marked by blast
  have c: "\<forall>g obj. mark_loop L_mark_next obj 0 g = Some (Inr g)"
    by (subst mark_loop.simps) simp
  show ?thesis using a b c by blast
qed

theorem mark_terminates_witness:
  "(\<exists>h'. mark 2 ex_mem = Some (Inr h') \<and> (\<forall>a. is_marked ex_mem a \<longrightarrow> is_marked h' a)) \<and>
   mark_loop L_start_marking 3 2 (ex_mem(3 \<mapsto> marked_cons)) =
     mark_loop L_mark_next 3 2 (ex_mem(3 \<mapsto> marked_cons)) \<and>
   mark_loop L_mark_next 2 0 ex_mem = Some (Inr ex_mem)"
proof -
  have r: "2 \<in> set [4, 3, 2, 1::nat]" by simp
  note t = mark_terminates[of ex_mem "[4, 3, 2, 1]" 2, OF ex_graph_ok r]
  have a: "\<exists>h'. mark 2 ex_mem = Some (Inr h') \<and> (\<forall>a. is_marked ex_mem a \<longrightarrow> is_marked h' a)"
    using t by (rule conjunct1)
  have sc: "\<forall>g obj parent ob. g obj = Some ob \<and> marked ob \<longrightarrow>
      mark_loop L_start_marking obj parent g = mark_loop L_mark_next obj parent g"
    using t by (elim conjE)
  have b: "mark_loop L_start_marking 3 2 (ex_mem(3 \<mapsto> marked_cons)) =
     mark_loop L_mark_next 3 2 (ex_mem(3 \<mapsto> marked_cons))"
    by (rule sc[rule_format, where ob = marked_cons]) (simp add: marked_cons_def)
  have c: "mark_loop L_mark_next 2 0 ex_mem = Some (Inr ex_mem)"
    using t by (elim conjE allE)
  show ?thesis using a b c by (intro conjI)
qed

text \<open>
  C1: from a state that satisfies the heap invariant, \<open>gc\<close> either returns, and then the
  heap list holds exactly the objects that were reachable from the cells on the root stack,
  each with its mark cleared; or it stops in \<open>nil_dispose\<close>, which happens exactly when an
  object of class nil is on the heap list and unreachable.  It never runs forever and never
  reaches undefined behaviour.
\<close>

theorem gc_keeps_exactly_reachable:
  assumes "heap_inv s objs"
  shows "(\<exists>s' objs'. gc s = Some (Inr s') \<and>
            object_list (memory s') (heap_head s') objs' \<and>
            set objs' = live s \<and>
            (\<forall>a \<in> set objs'. \<not> is_marked (memory s') a)) \<or>
         (gc s = Some (Inl Aborted) \<and>
            (\<exists>a \<in> set objs. a \<notin> live s \<and> dead_nil (memory s) a))"
proof -
  let ?K = "filter (\<lambda>a. a \<in> live s) objs"
  have "object_list (memory s') (heap_head s') ?K \<and> set ?K = live s \<and>
        (\<forall>a \<in> set ?K. \<not> is_marked (memory s') a)" if "collected s objs s'" for s'
  proof -
    have "heap_inv s' ?K" using that by (simp add: collected_def)
    then have "object_list (memory s') (heap_head s') ?K"
      "\<forall>a \<in> set ?K. \<not> is_marked (memory s') a"
      unfolding heap_inv_def by blast+
    then show ?thesis using collected_heap_set[OF assms] by blast
  qed
  then show ?thesis using gc_total[OF assms] by blast
qed

theorem gc_keeps_exactly_reachable_witness:
  "\<exists>s' objs'. gc ex_state = Some (Inr s') \<and>
      object_list (memory s') (heap_head s') objs' \<and>
      set objs' = live ex_state \<and>
      (\<forall>a \<in> set objs'. \<not> is_marked (memory s') a)"
  using gc_keeps_exactly_reachable[of ex_state "[4, 3, 2, 1]"] ex_heap_inv ex_gc_returns
  by auto

text \<open>
  C7: from a state that satisfies the heap invariant, if \<open>gc\<close> returns then a second
  \<open>gc\<close> right after it returns as well, with the same heap list (the same objects in the
  same order), the same \<open>object_count\<close> and the same root stack; the second collection
  frees no block.
\<close>

theorem gc_idempotent:
  assumes "heap_inv s objs"
  shows "gc s = Some (Inl Aborted) \<or>
         (\<exists>s1 s2 objs1. gc s = Some (Inr s1) \<and> gc s1 = Some (Inr s2) \<and>
            object_list (memory s1) (heap_head s1) objs1 \<and>
            object_list (memory s2) (heap_head s2) objs1 \<and>
            object_count s2 = object_count s1 \<and>
            roots_head s2 = roots_head s1 \<and>
            (\<forall>a. memory s1 a \<noteq> None \<longrightarrow> memory s2 a \<noteq> None))"
proof -
  let ?K = "filter (\<lambda>a. a \<in> live s) objs"
  have "\<exists>s2. gc s1 = Some (Inr s2) \<and>
            object_list (memory s1) (heap_head s1) ?K \<and>
            object_list (memory s2) (heap_head s2) ?K \<and>
            object_count s2 = object_count s1 \<and>
            roots_head s2 = roots_head s1 \<and>
            (\<forall>a. memory s1 a \<noteq> None \<longrightarrow> memory s2 a \<noteq> None)"
    if col: "collected s objs s1" for s1
  proof -
    obtain s2 where s2: "gc s1 = Some (Inr s2)" "collected s1 ?K s2" "heap_inv s2 ?K"
      using gc_again[OF assms col] by blast
    have inv1: "heap_inv s1 ?K" using col by (simp add: collected_def)
    have l1: "live s1 = live s" by (rule collected_live[OF col])
    have alive: "memory s2 a \<noteq> None" if "memory s1 a \<noteq> None" for a
    proof (cases "a \<in> set ?K")
      case True
      then show ?thesis using object_list_allocated[of "memory s2" "heap_head s2" ?K a] s2(3)
        by (simp add: heap_inv_def)
    next
      case False
      then have "memory s2 a = memory s1 a" using s2(2) unfolding collected_def by blast
      then show ?thesis using that by simp
    qed
    have "object_count s2 = object_count s1" using inv1 s2(3) by (simp add: heap_inv_def)
    moreover have "roots_head s2 = roots_head s1" using s2(2) by (simp add: collected_def)
    ultimately show ?thesis using s2(1,3) inv1 alive by (auto simp: heap_inv_def)
  qed
  then show ?thesis using gc_total[OF assms] by blast
qed

theorem gc_idempotent_witness:
  "\<exists>s1 s2 objs1. gc ex_state = Some (Inr s1) \<and> gc s1 = Some (Inr s2) \<and>
      object_list (memory s1) (heap_head s1) objs1 \<and>
      object_list (memory s2) (heap_head s2) objs1 \<and>
      object_count s2 = object_count s1 \<and>
      roots_head s2 = roots_head s1 \<and>
      (\<forall>a. memory s1 a \<noteq> None \<longrightarrow> memory s2 a \<noteq> None)"
  using gc_idempotent[of ex_state "[4, 3, 2, 1]"] ex_heap_inv ex_gc_returns
  by auto

lemmas reg_defs = reg_mem_def reg_below_def reg_full_def reg_garbage_def reg_collected_def
  reg_linked_def fresh_block_def

text \<open>
  C6: \<open>register_object\<close> does not collect when the count is below the cap: it writes the
  header of \<open>obj\<close> (next = the old head, marked = false, the given class), makes \<open>obj\<close>
  the head of the heap list and adds one to the count.  When the count equals 10000 it
  runs \<open>gc\<close> on the state it was called in, in which \<open>obj\<close> is not linked yet; an error of
  that collection is the error of the call; if the count is still 10000 afterwards the
  call stops with the fatal message; otherwise it links \<open>obj\<close> into the collected state
  in the same way.  Called as its contract asks from a state that satisfies the heap
  invariant, a call that returns leaves \<open>obj\<close> first on the heap list, unmarked, with the
  given class and its payload as the caller wrote it, in front of objects that were on the
  list before and among which are all objects held by rooted cells; the count is the
  length of the list.
\<close>

theorem register_object_steps:
  "(object_count s \<noteq> 10000 \<and> object_count s \<noteq> INT_MAX \<and> memory s obj = Some ob \<longrightarrow>
      register_object obj cl s =
        Some (Inr (s\<lparr>object_count := object_count s + 1,
                     memory := (memory s)(obj \<mapsto> ob\<lparr>next_ptr := heap_head s, marked := False,
                                                   class_ptr := cl\<rparr>),
                     heap_head := obj\<rparr>))) \<and>
   (object_count s = 10000 \<and> gc s = Some (Inl e) \<longrightarrow>
      register_object obj cl s = Some (Inl e)) \<and>
   (object_count s = 10000 \<and> gc s = Some (Inr s1) \<and> object_count s1 = 10000 \<longrightarrow>
      register_object obj cl s =
        Some (Inl (Fatal ''register_object: object count limit reached.''))) \<and>
   (object_count s = 10000 \<and> gc s = Some (Inr s1) \<and> object_count s1 \<noteq> 10000 \<and>
    object_count s1 \<noteq> INT_MAX \<and> memory s1 obj = Some ob1 \<longrightarrow>
      register_object obj cl s =
        Some (Inr (s1\<lparr>object_count := object_count s1 + 1,
                      memory := (memory s1)(obj \<mapsto> ob1\<lparr>next_ptr := heap_head s1,
                                                     marked := False, class_ptr := cl\<rparr>),
                      heap_head := obj\<rparr>))) \<and>
   (heap_inv s objs \<and> obj \<noteq> 0 \<and> obj \<notin> set objs \<and> memory s obj = Some ob \<and>
    class_ok (ob\<lparr>class_ptr := cl\<rparr>) \<and> set (children_of ob) \<subseteq> root_values s \<and>
    register_object obj cl s = Some (Inr s') \<longrightarrow>
      (\<exists>objs' ob'. object_list (memory s') (heap_head s') (obj # objs') \<and>
          set objs' \<subseteq> set objs \<and> root_values s \<subseteq> set objs' \<and>
          memory s' obj = Some ob' \<and> class_ptr ob' = cl \<and> \<not> marked ob' \<and>
          payload ob' = payload ob \<and>
          object_count s' = int (length (obj # objs'))))"
proof -
  have "\<exists>objs' ob'. object_list (memory s') (heap_head s') (obj # objs') \<and>
          set objs' \<subseteq> set objs \<and> root_values s \<subseteq> set objs' \<and>
          memory s' obj = Some ob' \<and> class_ptr ob' = cl \<and> \<not> marked ob' \<and>
          payload ob' = payload ob \<and>
          object_count s' = int (length (obj # objs'))"
    if inv: "heap_inv s objs" and obj: "obj \<noteq> 0" "obj \<notin> set objs"
      and ob: "memory s obj = Some ob" "class_ok (ob\<lparr>class_ptr := cl\<rparr>)"
        "set (children_of ob) \<subseteq> root_values s"
      and run: "register_object obj cl s = Some (Inr s')"
  proof -
    obtain objs' where reg: "registered obj s objs s' objs'"
      using register_object_inv[OF inv obj ob run] by blast
    have inv': "heap_inv s' (obj # objs')" and sub: "set objs' \<subseteq> set objs"
      "root_values s \<subseteq> set objs'"
      using reg unfolding registered_def by blast+
    have l: "object_list (memory s') (heap_head s') (obj # objs')"
      "object_count s' = int (length (obj # objs'))"
      using inv' unfolding heap_inv_def by blast+
    obtain ob' where "memory s' obj = Some ob'" "class_ptr ob' = cl" "\<not> marked ob'"
      "payload ob' = payload ob"
      using register_object_block[OF inv obj(2) ob(1) run] by blast
    then show ?thesis using l sub by blast
  qed
  then show ?thesis by (simp add: register_object_def)
qed

lemma reg_full_gc: "gc reg_full = Some (Inr reg_full)"
  by (simp add: eval_simps reg_defs ex_cell_def)

lemma reg_garbage_gc: "gc reg_garbage = Some (Inr reg_collected)"
  by (simp add: eval_simps reg_defs ex_cell_def)

lemma reg_below_inv: "heap_inv reg_below [2]"
  by (simp add: reg_defs heap_inv_def graph_ok_def class_ok_def children_of_def
      is_marked_def ex_cell_def)

lemma reg_below_run: "register_object 9 atom_class reg_below = Some (Inr reg_linked)"
  by (simp add: register_object_def reg_defs INT_MAX_def ex_cell_def)

theorem register_object_steps_witness:
  "register_object 9 atom_class reg_below = Some (Inr reg_linked) \<and>
   register_object 9 atom_class reg_full =
     Some (Inl (Fatal ''register_object: object count limit reached.'')) \<and>
   register_object 9 atom_class reg_garbage =
     Some (Inr (reg_collected\<lparr>object_count := 10000,
                  memory := (reg_mem(2 := None))
                     (9 \<mapsto> \<lparr>next_ptr = 0, marked = False, class_ptr = atom_class,
                            payload = Atom_payload ''N''\<rparr>),
                  heap_head := 9\<rparr>)) \<and>
   (\<exists>objs' ob'. object_list (memory reg_linked) (heap_head reg_linked) (9 # objs') \<and>
       set objs' \<subseteq> set [2] \<and> root_values reg_below \<subseteq> set objs' \<and>
       memory reg_linked 9 = Some ob' \<and> class_ptr ob' = atom_class \<and> \<not> marked ob' \<and>
       payload ob' = payload (fresh_block (Atom_payload ''N'')) \<and>
       object_count reg_linked = int (length (9 # objs')))"
proof -
  have a: "register_object 9 atom_class reg_full =
     Some (Inl (Fatal ''register_object: object count limit reached.''))"
    using register_object_steps[where s = reg_full and obj = 9 and cl = atom_class
       and ?s1.0 = reg_full] reg_full_gc
    by (simp add: reg_defs)
  have b: "register_object 9 atom_class reg_garbage =
     Some (Inr (reg_collected\<lparr>object_count := 10000,
                  memory := (reg_mem(2 := None))
                     (9 \<mapsto> \<lparr>next_ptr = 0, marked = False, class_ptr = atom_class,
                            payload = Atom_payload ''N''\<rparr>),
                  heap_head := 9\<rparr>))"
    using register_object_steps[where s = reg_garbage and obj = 9 and cl = atom_class
       and ?s1.0 = reg_collected and ?ob1.0 = "fresh_block (Atom_payload ''N'')"]
      reg_garbage_gc
    by (simp add: reg_defs INT_MAX_def)
  have pre: "9 \<noteq> (0::nat) \<and> 9 \<notin> set [2::nat] \<and>
      memory reg_below 9 = Some (fresh_block (Atom_payload ''N'')) \<and>
      class_ok ((fresh_block (Atom_payload ''N''))\<lparr>class_ptr := atom_class\<rparr>) \<and>
      set (children_of (fresh_block (Atom_payload ''N''))) \<subseteq> root_values reg_below"
    by (simp add: reg_defs class_ok_def children_of_def)
  have c: "\<exists>objs' ob'. object_list (memory reg_linked) (heap_head reg_linked) (9 # objs') \<and>
       set objs' \<subseteq> set [2] \<and> root_values reg_below \<subseteq> set objs' \<and>
       memory reg_linked 9 = Some ob' \<and> class_ptr ob' = atom_class \<and> \<not> marked ob' \<and>
       payload ob' = payload (fresh_block (Atom_payload ''N'')) \<and>
       object_count reg_linked = int (length (9 # objs'))"
    using register_object_steps[where s = reg_below and obj = 9 and cl = atom_class
       and ob = "fresh_block (Atom_payload ''N'')" and objs = "[2]" and s' = reg_linked]
      reg_below_inv reg_below_run pre
    by blast
  show ?thesis using reg_below_run a b c by (intro conjI)
qed

lemma ex_create_cons: "call (Create_cons 9 2 1) ex_state = Some (Inr ex_with_cons)"
  by (simp add: final_state_def create_cons_def register_object_def push_root_def pop_root_def
      stack_push_def stack_pop_def fresh_block_def INT_MAX_def ex_defs ex_with_cons_def)

lemma ex_create_cons_pre: "entry_pre (Create_cons 9 2 1) ex_state [4, 3, 2, 1]"
  by (simp add: ex_defs)

lemma ex_gc: "call Gc ex_state = Some (Inr ex_collected)"
  by (simp add: eval_simps ex_collected_def)

text \<open>
  C8: when an entry point is called as its contract asks, from a state that satisfies the
  heap invariant (for \<open>init_globals\<close>: at program start), and returns, then in the state it
  returns \<open>object_count\<close> is the length of the heap list.
\<close>

theorem object_count_is_heap_length:
  assumes "heap_inv s objs" "entry_pre e s objs" "call e s = Some (Inr s')"
  shows "\<exists>objs'. object_list (memory s') (heap_head s') objs' \<and>
                 object_count s' = int (length objs')"
proof -
  obtain objs' where "heap_inv s' objs'"
    using call_preserves_heap_inv[OF assms] by blast
  then have "object_list (memory s') (heap_head s') objs' \<and> object_count s' = int (length objs')"
    unfolding heap_inv_def by blast
  then show ?thesis by blast
qed

theorem object_count_is_heap_length_witness:
  "heap_inv ex_state [4, 3, 2, 1] \<and> entry_pre (Create_cons 9 2 1) ex_state [4, 3, 2, 1] \<and>
   call (Create_cons 9 2 1) ex_state = Some (Inr ex_with_cons) \<and>
   (\<exists>objs'. object_list (memory ex_with_cons) (heap_head ex_with_cons) objs' \<and>
            object_count ex_with_cons = int (length objs'))"
  using object_count_is_heap_length[of ex_state "[4, 3, 2, 1]" "Create_cons 9 2 1" ex_with_cons]
    ex_heap_inv ex_create_cons_pre ex_create_cons
  by blast

text \<open>
  C9: when an entry point is called as its contract asks, from a state that satisfies the
  heap invariant (for \<open>init_globals\<close>: at program start), and returns, then in the state it
  returns every object on the heap list is allocated and has \<open>marked\<close> equal to false.
\<close>

theorem heap_objects_unmarked:
  assumes "heap_inv s objs" "entry_pre e s objs" "call e s = Some (Inr s')"
  shows "\<exists>objs'. object_list (memory s') (heap_head s') objs' \<and>
                 (\<forall>a \<in> set objs'. \<exists>ob. memory s' a = Some ob \<and> \<not> marked ob)"
proof -
  obtain objs' where inv': "heap_inv s' objs'"
    using call_preserves_heap_inv[OF assms] by blast
  have "\<exists>ob. memory s' a = Some ob \<and> \<not> marked ob" if a: "a \<in> set objs'" for a
  proof -
    obtain ob where ob: "memory s' a = Some ob" using heap_inv_allocated[OF inv' a] by blast
    have "\<not> is_marked (memory s') a" using inv' a unfolding heap_inv_def by blast
    then show ?thesis using ob by (simp add: is_marked_def)
  qed
  moreover have "object_list (memory s') (heap_head s') objs'"
    using inv' unfolding heap_inv_def by blast
  ultimately show ?thesis by blast
qed

theorem heap_objects_unmarked_witness:
  "heap_inv ex_state [4, 3, 2, 1] \<and> entry_pre Gc ex_state [4, 3, 2, 1] \<and>
   call Gc ex_state = Some (Inr ex_collected) \<and>
   (\<exists>objs'. object_list (memory ex_collected) (heap_head ex_collected) objs' \<and>
            (\<forall>a \<in> set objs'. \<exists>ob. memory ex_collected a = Some ob \<and> \<not> marked ob))"
  using heap_objects_unmarked[of ex_state "[4, 3, 2, 1]" Gc ex_collected] ex_heap_inv ex_gc
  by simp

end
